theory Spec2Isabelle
  imports Main
begin

section \<open>Shared data: credential directory, JavaScript Map, local file system\<close>

text \<open>
  The repository holds several variants of one gateway. Four are modelled here: the
  production gateway v31 (ftp-srv, uploads from the STOR handler, session registry
  \<open>activeConnections\<close>), the timer-driven gateway (ftp-srv, \<open>uploadQueue\<close> drained by
  \<open>processUploadQueue\<close> when an idle timer fires), the ftpd gateway (\<open>uploadQueue\<close>
  drained after a disconnect) and the backup gateway \<open>simple-ftp-server.js\<close>
  (\<open>processUploads\<close>).

  A connection object is modelled by its identity (a number); a user-mapping entry of
  \<open>user-mapping.json\<close> by a record; \<open>userMappings[username]\<close> by a partial map (the
  lookup is falsy exactly when the map has no entry).
\<close>

type_synonym conn = nat

record user_info =
  password :: string
  email :: string
  egnytePath :: string

type_synonym user_mappings = "string \<Rightarrow> user_info option"

text \<open>
  A JavaScript \<open>Map\<close> keeps its entries in insertion order: \<open>set\<close> on a present key
  replaces the value in place, on an absent key appends; \<open>delete\<close> removes the entry of
  the key; \<open>size\<close> is the number of entries.
\<close>

fun map_has :: "'k \<Rightarrow> ('k \<times> 'v) list \<Rightarrow> bool" where
  "map_has k [] = False"
| "map_has k ((k', v) # m) = (if k' = k then True else map_has k m)"

fun map_get :: "'k \<Rightarrow> ('k \<times> 'v) list \<Rightarrow> 'v option" where
  "map_get k [] = None"
| "map_get k ((k', v) # m) = (if k' = k then Some v else map_get k m)"

fun map_set :: "'k \<Rightarrow> 'v \<Rightarrow> ('k \<times> 'v) list \<Rightarrow> ('k \<times> 'v) list" where
  "map_set k v [] = [(k, v)]"
| "map_set k v ((k', v') # m) = (if k' = k then (k, v) # m else (k', v') # map_set k v m)"

fun map_delete :: "'k \<Rightarrow> ('k \<times> 'v) list \<Rightarrow> ('k \<times> 'v) list" where
  "map_delete k [] = []"
| "map_delete k ((k', v) # m) = (if k' = k then m else (k', v) # map_delete k m)"

text \<open>
  The local staging directory is the set of paths that exist. \<open>fs.unlinkSync\<close> removes
  a path that exists and throws (\<open>Inl\<close>) on one that does not.
\<close>

definition unlinkSync :: "string \<Rightarrow> string set \<Rightarrow> string + string set" where
  "unlinkSync p fs = (if p \<in> fs then Inr (fs - {p}) else Inl (''ENOENT: '' @ p))"

section \<open>Production gateway v31: the Egnyte client\<close>

text \<open>
  \<open>fetch\<close> either rejects (network failure, timeout) or resolves to a response with a
  status; \<open>response.ok\<close> holds for the statuses 200 to 299.
\<close>

datatype fetch_result = FetchError string | Response nat

definition response_ok :: "nat \<Rightarrow> bool" where
  "response_ok st = (200 \<le> st \<and> st \<le> 299)"

datatype request =
    CheckDirectory string
  | CreateDirectory string
  | UploadContent string
  | Warning string

text \<open>
  The answers of the remote side to the three requests one \<open>uploadFile\<close> can send.
\<close>

record remote =
  checkResponse :: fetch_result
  createResponse :: fetch_result
  uploadResponse :: fetch_result

text \<open>
  The body of the \<open>try\<close> block of \<open>ensureDirectoryExists\<close>: \<open>Inl\<close> is a thrown error
  (a rejected \<open>fetch\<close> or one of the two \<open>throw new Error\<close>), \<open>Inr True\<close> is
  \<open>return true\<close>. The second component lists the requests sent.
\<close>

definition ensureDirectoryExists_try :: "remote \<Rightarrow> string \<Rightarrow> (string + bool) \<times> request list" where
  "ensureDirectoryExists_try r directoryPath =
     (let cleanPath = dropWhile (\<lambda>ch. ch = CHR ''/'') directoryPath in
      case checkResponse r of
        FetchError e \<Rightarrow> (Inl e, [CheckDirectory cleanPath])
      | Response st \<Rightarrow>
          if response_ok st then (Inr True, [CheckDirectory cleanPath])
          else if st = 404 then
            (case createResponse r of
               FetchError e \<Rightarrow> (Inl e, [CheckDirectory cleanPath, CreateDirectory cleanPath])
             | Response st' \<Rightarrow>
                 if \<not> response_ok st'
                 then (Inl ''Failed to create directory'',
                       [CheckDirectory cleanPath, CreateDirectory cleanPath])
                 else (Inr True, [CheckDirectory cleanPath, CreateDirectory cleanPath]))
          else (Inl ''Failed to check directory'', [CheckDirectory cleanPath]))"

text \<open>
  \<open>ensureDirectoryExists\<close>: the \<open>catch\<close> logs a warning and falls through, so the
  promise resolves to \<open>undefined\<close> (\<open>None\<close>) then; it never rejects.
\<close>

definition ensureDirectoryExists :: "remote \<Rightarrow> string \<Rightarrow> bool option \<times> request list" where
  "ensureDirectoryExists r directoryPath =
     (case ensureDirectoryExists_try r directoryPath of
        (Inl e, reqs) \<Rightarrow> (None, reqs @ [Warning (''Directory check/creation failed: '' @ e)])
      | (Inr b, reqs) \<Rightarrow> (Some b, reqs))"

text \<open>
  \<open>uploadFile\<close>: \<open>Inl\<close> is the rethrown error, \<open>Inr p\<close> the success object (its
  \<open>path\<close>). \<open>exists\<close> is \<open>fs.existsSync(localFilePath)\<close>; \<open>dirname\<close> stands for
  Node's \<open>path.dirname\<close>. The messages of the HTTP failures are shortened (the source
  appends the status and the body of the response); the logging is left out but for
  the warning of \<open>ensureDirectoryExists\<close>.
\<close>

definition uploadFile ::
  "(string \<Rightarrow> string) \<Rightarrow> remote \<Rightarrow> bool \<Rightarrow> string \<Rightarrow> string \<Rightarrow> (string + string) \<times> request list" where
  "uploadFile dirname r exists localFilePath egnyteDestinationPath =
     (if \<not> exists then (Inl (''Local file not found: '' @ localFilePath), [])
      else
        let (ensured, reqs) = ensureDirectoryExists r (dirname egnyteDestinationPath) in
        case uploadResponse r of
          FetchError e \<Rightarrow> (Inl e, reqs @ [UploadContent egnyteDestinationPath])
        | Response st \<Rightarrow>
            if \<not> response_ok st
            then (Inl ''HTTP error'', reqs @ [UploadContent egnyteDestinationPath])
            else (Inr egnyteDestinationPath, reqs @ [UploadContent egnyteDestinationPath]))"

section \<open>Production gateway v31: session registry and handlers\<close>

text \<open>
  \<open>connection.destroyed\<close> and \<open>connection.readyState\<close> belong to the FTP library;
  the gateway only reads them.
\<close>

record conn_flags =
  destroyed :: bool
  readyState :: string

text \<open>The value stored in \<open>activeConnections\<close> (the two \<open>Date\<close> fields are left out).\<close>

record connectionInfo =
  ci_connection :: conn
  ci_username :: string
  ci_userInfo :: user_info

text \<open>
  The callbacks handed to \<open>setTimeout\<close>: the idle timeout of a login and the
  auto-disconnect of a successful upload; both close over \<open>username\<close> and
  \<open>connection\<close> of the login.
\<close>

datatype timer = IdleTimeout string conn | AutoDisconnect string conn

text \<open>
  One successful login registers its handlers on the connection; they share the
  variables \<open>username\<close>, \<open>userInfo\<close>, \<open>connection\<close> and the mutable \<open>idleTimer\<close>.
\<close>

record login_closure =
  lc_connection :: conn
  lc_username :: string
  lc_userInfo :: user_info
  lc_idleTimer :: nat

text \<open>An \<open>uploadFile\<close> call of a STOR handler that has not settled yet.\<close>

record pending_upload =
  pu_login :: nat
  pu_filePath :: string
  pu_exists :: bool

text \<open>
  What the handlers do to the outside, in the order they do it: the answer to a login,
  \<open>connection.close()\<close>, the changes of \<open>activeConnections\<close>, \<open>setTimeout\<close> and
  \<open>clearTimeout\<close>, \<open>fs.unlinkSync\<close> and the requests to Egnyte. The calls of the logger
  are left out.
\<close>

datatype effect =
    Resolve conn
  | Reject conn string
  | Close conn
  | RegistryDelete string
  | RegistrySet string conn
  | TimerSet nat nat timer
  | TimerCleared nat
  | Unlinked string
  | UnlinkFailed string
  | Sent request

text \<open>
  The part of \<open>CONFIG\<close> the handlers read, whether \<open>egnyteClient\<close> is set, the loaded
  \<open>userMappings\<close>, and Node's \<open>path.dirname\<close> and \<open>path.basename\<close>.
\<close>

record config =
  MAX_CONNECTIONS :: int
  IDLE_TIMEOUT :: nat
  AUTO_DISCONNECT_DELAY :: nat
  egnyteConfigured :: bool
  userMappings :: user_mappings
  path_dirname :: "string \<Rightarrow> string"
  path_basename :: "string \<Rightarrow> string"

text \<open>
  The state of the process: the Map \<open>activeConnections\<close>, the flags of the connection
  objects, the pending timeouts (identifier, delay, callback) and the next timer
  identifier, the closures of the accepted logins, the \<open>uploadFile\<close> calls in flight,
  the files of the scan directory, and the effects so far.
\<close>

record gateway =
  activeConnections :: "(string \<times> connectionInfo) list"
  connFlags :: "conn \<Rightarrow> conn_flags"
  timers :: "(nat \<times> nat \<times> timer) list"
  nextTimer :: nat
  logins :: "login_closure list"
  uploads :: "pending_upload list"
  files :: "string set"
  effects :: "effect list"

text \<open>
  \<open>activeConnections.delete\<close> and \<open>.set\<close>, \<open>connection.close()\<close> (taken not to throw:
  the handlers that guard it with \<open>try\<close> only log), \<open>setTimeout\<close> and \<open>clearTimeout\<close>.
\<close>

definition emit :: "effect \<Rightarrow> gateway \<Rightarrow> gateway" where
  "emit e s = s\<lparr>effects := effects s @ [e]\<rparr>"

definition registry_delete :: "string \<Rightarrow> gateway \<Rightarrow> gateway" where
  "registry_delete u s =
     emit (RegistryDelete u) (s\<lparr>activeConnections := map_delete u (activeConnections s)\<rparr>)"

definition registry_set :: "string \<Rightarrow> connectionInfo \<Rightarrow> gateway \<Rightarrow> gateway" where
  "registry_set u ci s =
     emit (RegistrySet u (ci_connection ci))
       (s\<lparr>activeConnections := map_set u ci (activeConnections s)\<rparr>)"

definition connection_close :: "conn \<Rightarrow> gateway \<Rightarrow> gateway" where
  "connection_close c s = emit (Close c) s"

definition setTimeout :: "timer \<Rightarrow> nat \<Rightarrow> gateway \<Rightarrow> nat \<times> gateway" where
  "setTimeout cb delay s =
     (nextTimer s,
      emit (TimerSet (nextTimer s) delay cb)
        (s\<lparr>timers := timers s @ [(nextTimer s, delay, cb)], nextTimer := Suc (nextTimer s)\<rparr>))"

definition clearTimeout :: "nat \<Rightarrow> gateway \<Rightarrow> gateway" where
  "clearTimeout t s = emit (TimerCleared t) (s\<lparr>timers := map_delete t (timers s)\<rparr>)"

definition is_stale :: "gateway \<Rightarrow> conn \<Rightarrow> bool" where
  "is_stale s c = (destroyed (connFlags s c) \<or> readyState (connFlags s c) = ''closed'')"

text \<open>
  The clean-up loop of the login handler and of the periodic sweep: it visits the
  entries the map had and deletes the stale ones by key.
\<close>

fun cleanup :: "(string \<times> connectionInfo) list \<Rightarrow> gateway \<Rightarrow> gateway" where
  "cleanup [] s = s"
| "cleanup ((user, connInfo) # es) s =
     cleanup es
       (if is_stale s (ci_connection connInfo)
        then s\<lparr>activeConnections := map_delete user (activeConnections s)\<rparr>
        else s)"

definition cleanupStale :: "gateway \<Rightarrow> gateway" where
  "cleanupStale s = cleanup (activeConnections s) s"

definition SERVER_BUSY :: string where
  "SERVER_BUSY = ''Server busy - maximum connections reached''"

definition USER_NOT_FOUND :: "string \<Rightarrow> string" where
  "USER_NOT_FOUND username = ''User '' @ [CHR 0x22] @ username @ [CHR 0x22] @ '' not found''"

definition INVALID_PASSWORD :: string where
  "INVALID_PASSWORD = ''Invalid password''"

text \<open>
  The \<open>login\<close> handler of v31, up to and including \<open>resolve\<close> and the registration of
  the connection's handlers.
\<close>

definition login :: "config \<Rightarrow> conn \<Rightarrow> string \<Rightarrow> string \<Rightarrow> gateway \<Rightarrow> gateway" where
  "login cfg c username pw s0 =
     (let s = cleanupStale s0 in
      if int (length (activeConnections s)) \<ge> MAX_CONNECTIONS cfg
      then emit (Reject c SERVER_BUSY) s
      else case userMappings cfg username of
        None \<Rightarrow> emit (Reject c (USER_NOT_FOUND username)) s
      | Some uinfo \<Rightarrow>
          if password uinfo \<noteq> pw then emit (Reject c INVALID_PASSWORD) s
          else
            let s = (case map_get username (activeConnections s) of
                       Some existingConn \<Rightarrow>
                         registry_delete username (connection_close (ci_connection existingConn) s)
                     | None \<Rightarrow> s);
                s = registry_set username
                      \<lparr>ci_connection = c, ci_username = username, ci_userInfo = uinfo\<rparr> s;
                (t, s) = setTimeout (IdleTimeout username c) (IDLE_TIMEOUT cfg) s;
                s = emit (Resolve c) s
            in s\<lparr>logins := logins s @
                  [\<lparr>lc_connection = c, lc_username = username, lc_userInfo = uinfo,
                    lc_idleTimer = t\<rparr>]\<rparr>)"

text \<open>The outcome the caller of the handler sees: the last \<open>resolve\<close> or \<open>reject\<close>.\<close>

datatype outcome = Accepted | Rejected string

fun last_outcome :: "conn \<Rightarrow> effect list \<Rightarrow> outcome option" where
  "last_outcome c [] = None"
| "last_outcome c (e # es) =
     (case last_outcome c es of
        Some r \<Rightarrow> Some r
      | None \<Rightarrow> (if e = Resolve c then Some Accepted
                 else case e of Reject c' m \<Rightarrow> (if c' = c then Some (Rejected m) else None)
                              | _ \<Rightarrow> None))"

definition login_outcome :: "config \<Rightarrow> conn \<Rightarrow> string \<Rightarrow> string \<Rightarrow> gateway \<Rightarrow> outcome option" where
  "login_outcome cfg c username pw s =
     last_outcome c (drop (length (effects s)) (effects (login cfg c username pw s)))"

text \<open>\<open>resetIdleTimer\<close> of the login with index \<open>k\<close>.\<close>

definition resetIdleTimer :: "config \<Rightarrow> nat \<Rightarrow> gateway \<Rightarrow> gateway" where
  "resetIdleTimer cfg k s0 =
     (let lc = logins s0 ! k;
          s = clearTimeout (lc_idleTimer lc) s0;
          (t, s) = setTimeout (IdleTimeout (lc_username lc) (lc_connection lc)) (IDLE_TIMEOUT cfg) s
      in s\<lparr>logins := (logins s)[k := lc\<lparr>lc_idleTimer := t\<rparr>]\<rparr>)"

text \<open>
  The STOR handler up to its \<open>await\<close>: \<open>fs.statSync\<close> throws on a missing file (the
  outer \<open>catch\<close> only logs); without an Egnyte client the handler returns; otherwise
  \<open>uploadFile\<close> is called, which tests \<open>fs.existsSync\<close> at once.
\<close>

definition stor :: "config \<Rightarrow> bool \<Rightarrow> string \<Rightarrow> nat \<Rightarrow> gateway \<Rightarrow> gateway" where
  "stor cfg error filePath k s0 =
     (let s = resetIdleTimer cfg k s0 in
      if error then s
      else if filePath \<notin> files s then s
      else if \<not> egnyteConfigured cfg then s
      else s\<lparr>uploads := uploads s @
             [\<lparr>pu_login = k, pu_filePath = filePath, pu_exists = (filePath \<in> files s)\<rparr>]\<rparr>)"

text \<open>
  The rest of the STOR handler, once \<open>uploadFile\<close> has settled against the remote
  side \<open>r\<close>: after a success the local file is unlinked (a failure of that is logged)
  and the auto-disconnect is scheduled; after a failure nothing is done but logging.
\<close>

definition stor_settled :: "config \<Rightarrow> remote \<Rightarrow> pending_upload \<Rightarrow> gateway \<Rightarrow> gateway" where
  "stor_settled cfg r pu s0 =
     (let lc = logins s0 ! pu_login pu;
          fileName = path_basename cfg (pu_filePath pu);
          egnyteDestinationPath = egnytePath (lc_userInfo lc) @ ''/'' @ fileName;
          (res, reqs) = uploadFile (path_dirname cfg) r (pu_exists pu) (pu_filePath pu)
                          egnyteDestinationPath;
          s = fold (\<lambda>q. emit (Sent q)) reqs s0
      in case res of
           Inr uploadResult \<Rightarrow>
             let s = (case unlinkSync (pu_filePath pu) (files s) of
                        Inr fs \<Rightarrow> emit (Unlinked (pu_filePath pu)) (s\<lparr>files := fs\<rparr>)
                      | Inl deleteError \<Rightarrow> emit (UnlinkFailed (pu_filePath pu)) s)
             in snd (setTimeout (AutoDisconnect (lc_username lc) (lc_connection lc))
                       (AUTO_DISCONNECT_DELAY cfg) s)
         | Inl egnyteError \<Rightarrow> s)"

definition upload_settles :: "config \<Rightarrow> nat \<Rightarrow> remote \<Rightarrow> gateway \<Rightarrow> gateway" where
  "upload_settles cfg j r s =
     (if j < length (uploads s)
      then stor_settled cfg r (uploads s ! j)
             (s\<lparr>uploads := take j (uploads s) @ drop (Suc j) (uploads s)\<rparr>)
      else s)"

text \<open>The callbacks of the two kinds of timer.\<close>

fun timer_callback :: "timer \<Rightarrow> gateway \<Rightarrow> gateway" where
  "timer_callback (IdleTimeout username c) s =
     connection_close c (registry_delete username s)"
| "timer_callback (AutoDisconnect username c) s =
     (if map_has username (activeConnections s) then connection_close c s else s)"

definition timer_fires :: "nat \<Rightarrow> gateway \<Rightarrow> gateway" where
  "timer_fires t s =
     (case map_get t (timers s) of
        None \<Rightarrow> s
      | Some (delay, cb) \<Rightarrow> timer_callback cb (s\<lparr>timers := map_delete t (timers s)\<rparr>))"

text \<open>The \<open>close\<close>, \<open>error\<close> and \<open>end\<close> handlers of a login are alike.\<close>

definition on_close :: "nat \<Rightarrow> gateway \<Rightarrow> gateway" where
  "on_close k s =
     clearTimeout (lc_idleTimer (logins s ! k)) (registry_delete (lc_username (logins s ! k)) s)"

text \<open>An event of a connection runs the handlers of every login made on it.\<close>

definition on_connection :: "conn \<Rightarrow> (nat \<Rightarrow> gateway \<Rightarrow> gateway) \<Rightarrow> gateway \<Rightarrow> gateway" where
  "on_connection c handler s =
     fold (\<lambda>k s'. if lc_connection (logins s' ! k) = c then handler k s' else s')
       [0 ..< length (logins s)] s"

text \<open>
  The process runs one callback at a time. The events that start a callback: a login,
  a STOR or another command on a connection, the settling of an \<open>uploadFile\<close> a STOR
  handler awaits, the \<open>close\<close>, \<open>error\<close> and \<open>end\<close> of a connection, a timeout that
  fires, the periodic clean-up. The FTP library changes the flags of a connection and
  writes the received files. The gateway starts with an empty registry
  (\<open>activeConnections.clear()\<close> after \<open>listen\<close>); the SIGINT handler ends the process
  and is not a step.
\<close>

datatype event =
    Login conn string string
  | Stor conn bool string
  | UploadSettles nat remote
  | ConnectionClose conn
  | ConnectionError conn
  | ConnectionEnd conn
  | OtherCommand conn
  | TimerFires nat
  | PeriodicCleanup
  | LibrarySetsFlags conn conn_flags
  | LibraryWritesFile string

fun step :: "config \<Rightarrow> gateway \<Rightarrow> event \<Rightarrow> gateway" where
  "step cfg s (Login c username pw) = login cfg c username pw s"
| "step cfg s (Stor c error filePath) = on_connection c (stor cfg error filePath) s"
| "step cfg s (UploadSettles j r) = upload_settles cfg j r s"
| "step cfg s (ConnectionClose c) = on_connection c on_close s"
| "step cfg s (ConnectionError c) = on_connection c on_close s"
| "step cfg s (ConnectionEnd c) = on_connection c on_close s"
| "step cfg s (OtherCommand c) = on_connection c (resetIdleTimer cfg) s"
| "step cfg s (TimerFires t) = timer_fires t s"
| "step cfg s PeriodicCleanup = cleanupStale s"
| "step cfg s (LibrarySetsFlags c fl) = s\<lparr>connFlags := (connFlags s)(c := fl)\<rparr>"
| "step cfg s (LibraryWritesFile p) = s\<lparr>files := insert p (files s)\<rparr>"

definition started :: gateway where
  "started =
     \<lparr>activeConnections = [], connFlags = (\<lambda>c. \<lparr>destroyed = False, readyState = ''open''\<rparr>),
      timers = [], nextTimer = 0, logins = [], uploads = [], files = {}, effects = []\<rparr>"

definition run :: "config \<Rightarrow> event list \<Rightarrow> gateway" where
  "run cfg evs = foldl (step cfg) started evs"

section \<open>The upload queue of the timer-driven, ftpd and backup gateways\<close>

text \<open>
  An element of \<open>uploadQueue\<close>. JavaScript compares objects by identity
  (\<open>indexOf\<close>), so every object carries a reference \<open>pt_ref\<close>.
\<close>

record pending_transfer =
  pt_ref :: nat
  pt_localPath :: string
  pt_egnytePath :: string
  pt_fileName :: string
  pt_username :: string

datatype upload_outcome = Uploaded | UploadError string

text \<open>
  A drain suspends at \<open>await uploadToEgnyte(...)\<close> and at the \<open>await\<close> of the pacing
  delay. For the item with index \<open>i\<close> the environment gives the answer of the remote
  side and the transfers that STOR handlers push onto \<open>uploadQueue\<close> during each of the
  two suspensions.
\<close>

record suspension =
  sp_outcome :: upload_outcome
  sp_during_upload :: "pending_transfer list"
  sp_during_delay :: "pending_transfer list"

text \<open>
  What a drain does, in order: \<open>Dispatch\<close> is the call of \<open>uploadToEgnyte\<close> for an
  item, \<open>Deleted\<close> an \<open>fs.unlinkSync\<close> that succeeded, \<open>Succeeded\<close> and \<open>Failed\<close> the log
  line of the item in the \<open>try\<close> and in the \<open>catch\<close>, \<open>Wait d\<close> the \<open>await\<close> of a timeout
  of \<open>d\<close> milliseconds, \<open>NoFiles\<close>, \<open>BatchComplete success failed\<close> and \<open>BatchDone\<close> the
  log lines that end a drain. The state is \<open>uploadQueue\<close>, the files of the scan
  directory and what the drains did so far.
\<close>

datatype drain_event =
    NoFiles
  | Dispatch pending_transfer
  | Deleted string
  | Succeeded pending_transfer
  | Failed pending_transfer
  | Wait nat
  | BatchComplete nat nat
  | BatchDone

record coordinator =
  uploadQueue :: "pending_transfer list"
  staged :: "string set"
  journal :: "drain_event list"

definition journal_add :: "drain_event list \<Rightarrow> coordinator \<Rightarrow> coordinator" where
  "journal_add es st = st\<lparr>journal := journal st @ es\<rparr>"

text \<open>\<open>uploadQueue.push(...)\<close> for each transfer that arrives.\<close>

definition push :: "pending_transfer list \<Rightarrow> coordinator \<Rightarrow> coordinator" where
  "push items st = st\<lparr>uploadQueue := uploadQueue st @ items\<rparr>"

subsection \<open>Timer-driven gateway: \<open>processUploadQueue\<close> and the login handler\<close>

text \<open>
  One pass of the \<open>for\<close> loop over \<open>filesToProcess\<close>: \<open>i\<close> is the loop index, \<open>n\<close> is
  \<open>filesToProcess.length\<close>, the list holds the items from index \<open>i\<close> on. An exception
  of \<open>uploadToEgnyte\<close> or of \<open>fs.unlinkSync\<close> lands in the \<open>catch\<close>. The loop works on
  its copy \<open>filesToProcess\<close> and never reads \<open>uploadQueue\<close> again.
\<close>

definition process_item ::
  "suspension \<Rightarrow> pending_transfer \<Rightarrow> coordinator \<times> nat \<times> nat \<Rightarrow> coordinator \<times> nat \<times> nat" where
  "process_item e item acc =
     (case acc of (st0, success, failed) \<Rightarrow>
        let st = push (sp_during_upload e) (journal_add [Dispatch item] st0) in
        case sp_outcome e of
          Uploaded \<Rightarrow>
            (case unlinkSync (pt_localPath item) (staged st) of
               Inr fs \<Rightarrow>
                 (journal_add [Deleted (pt_localPath item), Succeeded item] (st\<lparr>staged := fs\<rparr>),
                  success + 1, failed)
             | Inl err \<Rightarrow> (journal_add [Failed item] st, success, failed + 1))
        | UploadError err \<Rightarrow> (journal_add [Failed item] st, success, failed + 1))"

fun process_loop ::
  "nat \<Rightarrow> (nat \<Rightarrow> suspension) \<Rightarrow> nat \<Rightarrow> nat \<Rightarrow> pending_transfer list \<Rightarrow>
   coordinator \<times> nat \<times> nat \<Rightarrow> coordinator \<times> nat \<times> nat" where
  "process_loop delay env n i [] acc = acc"
| "process_loop delay env n i (item # rest) acc =
     (case process_item (env i) item acc of (st, success, failed) \<Rightarrow>
        process_loop delay env n (i + 1) rest
          (if i < n - 1
           then (push (sp_during_delay (env i)) (journal_add [Wait delay] st), success, failed)
           else (st, success, failed)))"

definition processUploadQueue :: "nat \<Rightarrow> (nat \<Rightarrow> suspension) \<Rightarrow> coordinator \<Rightarrow> coordinator" where
  "processUploadQueue delay env st =
     (if length (uploadQueue st) = 0 then journal_add [NoFiles] st
      else
        let filesToProcess = uploadQueue st;
            st = st\<lparr>uploadQueue := []\<rparr>
        in case process_loop delay env (length filesToProcess) 0 filesToProcess (st, 0, 0) of
             (st, success, failed) \<Rightarrow> journal_add [BatchComplete success failed] st)"

text \<open>The credential check of the timer-driven gateway's \<open>login\<close> handler.\<close>

definition AUTHENTICATION_FAILED :: string where
  "AUTHENTICATION_FAILED = ''Authentication failed''"

definition login_check :: "user_mappings \<Rightarrow> string \<Rightarrow> string \<Rightarrow> outcome" where
  "login_check um username pw =
     (if um username = None \<or> map_option password (um username) \<noteq> Some pw
      then Rejected AUTHENTICATION_FAILED else Accepted)"

subsection \<open>ftpd gateway: \<open>processUploadQueue\<close> iterates the live queue\<close>

text \<open>\<open>Array.prototype.indexOf\<close>: the first index of the object, or \<open>-1\<close>.\<close>

fun indexOf :: "'a \<Rightarrow> 'a list \<Rightarrow> int" where
  "indexOf x [] = - 1"
| "indexOf x (y # ys) =
     (if x = y then 0 else (let j = indexOf x ys in if j < 0 then - 1 else j + 1))"

text \<open>
  \<open>for (const item of uploadQueue)\<close> reads the array's length before every pass, so
  the loop also visits what is pushed while it runs; it need not end, hence the fuel
  (\<open>None\<close>: the fuel ran out before the loop ended). The pacing delay stands inside
  the \<open>try\<close>, after the \<open>unlinkSync\<close>.
\<close>

fun ftpd_loop ::
  "nat \<Rightarrow> nat \<Rightarrow> (nat \<Rightarrow> suspension) \<Rightarrow> nat \<Rightarrow> coordinator \<Rightarrow> coordinator option" where
  "ftpd_loop 0 delay env i st = None"
| "ftpd_loop (Suc fuel) delay env i st0 =
     (if i < length (uploadQueue st0) then
        let item = uploadQueue st0 ! i;
            st = push (sp_during_upload (env i)) (journal_add [Dispatch item] st0);
            st = (case sp_outcome (env i) of
                    Uploaded \<Rightarrow>
                      (case unlinkSync (pt_localPath item) (staged st) of
                         Inr fs \<Rightarrow>
                           let st = journal_add [Deleted (pt_localPath item), Succeeded item]
                                      (st\<lparr>staged := fs\<rparr>)
                           in if indexOf item (uploadQueue st) < int (length (uploadQueue st)) - 1
                              then push (sp_during_delay (env i)) (journal_add [Wait delay] st)
                              else st
                       | Inl err \<Rightarrow> journal_add [Failed item] st)
                  | UploadError err \<Rightarrow> journal_add [Failed item] st)
        in ftpd_loop fuel delay env (i + 1) st
      else Some st0)"

definition processUploadQueue_ftpd ::
  "nat \<Rightarrow> nat \<Rightarrow> (nat \<Rightarrow> suspension) \<Rightarrow> coordinator \<Rightarrow> coordinator option" where
  "processUploadQueue_ftpd fuel delay env st =
     (if length (uploadQueue st) = 0 then Some st
      else map_option (\<lambda>st'. journal_add [BatchDone] (st'\<lparr>uploadQueue := []\<rparr>))
             (ftpd_loop fuel delay env 0 st))"

subsection \<open>Backup gateway: \<open>processUploads\<close> removes an item after its success\<close>

text \<open>
  \<open>uploadQueue.splice(index, 1)\<close> for an index in range. The loop iterates the copy
  \<open>[...uploadQueue]\<close>; only a pass that reached the end of its \<open>try\<close> removes its item
  from \<open>uploadQueue\<close>, and the pacing delay follows while \<open>uploadQueue\<close> is not empty.
\<close>

definition splice1 :: "nat \<Rightarrow> 'a list \<Rightarrow> 'a list" where
  "splice1 j xs = take j xs @ drop (Suc j) xs"

definition processUploads_item ::
  "nat \<Rightarrow> suspension \<Rightarrow> pending_transfer \<Rightarrow> coordinator \<times> nat \<times> nat \<Rightarrow> coordinator \<times> nat \<times> nat" where
  "processUploads_item delay e item acc =
     (case acc of (st0, success, failed) \<Rightarrow>
        let st = push (sp_during_upload e) (journal_add [Dispatch item] st0) in
        case sp_outcome e of
          Uploaded \<Rightarrow>
            (case unlinkSync (pt_localPath item) (staged st) of
               Inr fs \<Rightarrow>
                 let st = journal_add [Deleted (pt_localPath item), Succeeded item] (st\<lparr>staged := fs\<rparr>);
                     index = indexOf item (uploadQueue st);
                     st = (if index > - 1
                           then st\<lparr>uploadQueue := splice1 (nat index) (uploadQueue st)\<rparr>
                           else st);
                     st = (if length (uploadQueue st) > 0
                           then push (sp_during_delay e) (journal_add [Wait delay] st)
                           else st)
                 in (st, success + 1, failed)
             | Inl err \<Rightarrow> (journal_add [Failed item] st, success, failed + 1))
        | UploadError err \<Rightarrow> (journal_add [Failed item] st, success, failed + 1))"

fun processUploads_loop ::
  "nat \<Rightarrow> (nat \<Rightarrow> suspension) \<Rightarrow> nat \<Rightarrow> pending_transfer list \<Rightarrow>
   coordinator \<times> nat \<times> nat \<Rightarrow> coordinator \<times> nat \<times> nat" where
  "processUploads_loop delay env i [] acc = acc"
| "processUploads_loop delay env i (item # rest) acc =
     processUploads_loop delay env (i + 1) rest (processUploads_item delay (env i) item acc)"

definition processUploads :: "nat \<Rightarrow> (nat \<Rightarrow> suspension) \<Rightarrow> coordinator \<Rightarrow> coordinator" where
  "processUploads delay env st =
     (if length (uploadQueue st) = 0 then journal_add [NoFiles] st
      else case processUploads_loop delay env 0 (uploadQueue st) (st, 0, 0) of
             (st', success, failed) \<Rightarrow> journal_add [BatchComplete success failed] st')"

subsection \<open>Reading a journal\<close>

text \<open>The transfers a journal dispatched, and its dispatches and waits, in order.\<close>

fun dispatched :: "drain_event list \<Rightarrow> pending_transfer list" where
  "dispatched [] = []"
| "dispatched (Dispatch item # es) = item # dispatched es"
| "dispatched (e # es) = dispatched es"

fun pacing :: "drain_event list \<Rightarrow> drain_event list" where
  "pacing [] = []"
| "pacing (Dispatch item # es) = Dispatch item # pacing es"
| "pacing (Wait d # es) = Wait d # pacing es"
| "pacing (e # es) = pacing es"

text \<open>The dispatches of a batch with one wait between each two of them.\<close>

fun paced :: "nat \<Rightarrow> pending_transfer list \<Rightarrow> drain_event list" where
  "paced d [] = []"
| "paced d [item] = [Dispatch item]"
| "paced d (item # rest) = Dispatch item # Wait d # paced d rest"

section \<open>Notions the properties are stated with\<close>

text \<open>The registry holds at most one entry per username.\<close>

definition registry_ok :: "gateway \<Rightarrow> bool" where
  "registry_ok s = distinct (map fst (activeConnections s))"

text \<open>
  The connections of the open sessions of a username: a login of that username was
  accepted on the connection, the gateway has not called \<open>close\<close> on it, and the
  library does not report it destroyed or closed.
\<close>

definition open_sessions :: "gateway \<Rightarrow> string \<Rightarrow> conn list" where
  "open_sessions s u =
     map lc_connection
       (filter (\<lambda>lc. lc_username lc = u \<and> Close (lc_connection lc) \<notin> set (effects s)
                       \<and> \<not> is_stale s (lc_connection lc))
          (logins s))"

text \<open>
  What STOR handlers push onto \<open>uploadQueue\<close> while a drain of the timer-driven gateway
  works on the items \<open>i\<close> to \<open>i + k - 1\<close> of a snapshot of \<open>n\<close> items: what arrives
  during each upload and during each pacing delay (there is no delay after the last
  item); \<open>arrivals env n\<close> is what arrives during the whole drain.
\<close>

definition arrivals_from :: "(nat \<Rightarrow> suspension) \<Rightarrow> nat \<Rightarrow> nat \<Rightarrow> nat \<Rightarrow> pending_transfer list" where
  "arrivals_from env n i k =
     concat (map (\<lambda>j. sp_during_upload (env j) @
                        (if j < n - 1 then sp_during_delay (env j) else []))
               [i ..< i + k])"

definition arrivals :: "(nat \<Rightarrow> suspension) \<Rightarrow> nat \<Rightarrow> pending_transfer list" where
  "arrivals env n = arrivals_from env n 0 n"

text \<open>
  What a drain appended to the journal, and how many successes and failures a journal
  records.
\<close>

definition fresh_journal :: "coordinator \<Rightarrow> coordinator \<Rightarrow> drain_event list" where
  "fresh_journal st st' = drop (length (journal st)) (journal st')"

fun successes :: "drain_event list \<Rightarrow> nat" where
  "successes [] = 0"
| "successes (Succeeded item # es) = Suc (successes es)"
| "successes (e # es) = successes es"

fun failures :: "drain_event list \<Rightarrow> nat" where
  "failures [] = 0"
| "failures (Failed item # es) = Suc (failures es)"
| "failures (e # es) = failures es"

text \<open>
  The local paths of the items of a snapshot whose upload the environment lets succeed
  (item \<open>j\<close> of the list has index \<open>i + j\<close>).
\<close>

definition uploaded_paths :: "(nat \<Rightarrow> suspension) \<Rightarrow> nat \<Rightarrow> pending_transfer list \<Rightarrow> string set" where
  "uploaded_paths env i items =
     set (map (\<lambda>xj. pt_localPath (fst xj))
            (filter (\<lambda>xj. sp_outcome (env (snd xj)) = Uploaded)
               (zip items [i ..< i + length items])))"

text \<open>
  Item \<open>j\<close> of a snapshot is relayed by a drain that starts with the staged files
  \<open>fs\<close>: its upload succeeds and its local file is there to be unlinked, that is, it
  was staged when the drain started and no earlier item of the snapshot with the same
  local path was uploaded.
\<close>

definition relayed :: "(nat \<Rightarrow> suspension) \<Rightarrow> string set \<Rightarrow> pending_transfer list \<Rightarrow> nat \<Rightarrow> bool" where
  "relayed env fs items j =
     (sp_outcome (env j) = Uploaded
      \<and> pt_localPath (items ! j) \<in> fs - uploaded_paths env 0 (take j items))"

text \<open>
  How the \<open>uploadFile\<close> call of a pending STOR handler settles against the remote side
  \<open>r\<close>; what a handler appended to the effects; the pending auto-disconnect timers.
\<close>

definition settle_result :: "config \<Rightarrow> remote \<Rightarrow> pending_upload \<Rightarrow> gateway \<Rightarrow> string + string" where
  "settle_result cfg r pu s =
     fst (uploadFile (path_dirname cfg) r (pu_exists pu) (pu_filePath pu)
            (egnytePath (lc_userInfo (logins s ! pu_login pu)) @ ''/'' @
             path_basename cfg (pu_filePath pu)))"

definition fresh_effects :: "gateway \<Rightarrow> gateway \<Rightarrow> effect list" where
  "fresh_effects s s' = drop (length (effects s)) (effects s')"

fun is_auto_disconnect :: "timer \<Rightarrow> bool" where
  "is_auto_disconnect (AutoDisconnect username c) = True"
| "is_auto_disconnect (IdleTimeout username c) = False"

definition auto_disconnects :: "gateway \<Rightarrow> (nat \<times> nat \<times> timer) list" where
  "auto_disconnects s = filter (\<lambda>x. is_auto_disconnect (snd (snd x))) (timers s)"

section \<open>Concrete inputs\<close>

text \<open>
  The credential table of the duplicate-login scenario, with the configured maximum of
  sessions as a parameter, and a remote side whose directory check fails.
\<close>

definition scenario :: "int \<Rightarrow> config" where
  "scenario cap =
     \<lparr>MAX_CONNECTIONS = cap, IDLE_TIMEOUT = 60000, AUTO_DISCONNECT_DELAY = 10000,
      egnyteConfigured = True,
      userMappings = [''alice'' \<mapsto> \<lparr>password = ''s1'', email = ''alice@example.com'',
                                  egnytePath = ''/Shared/alice''\<rparr>],
      path_dirname = (\<lambda>p. rev (drop 1 (dropWhile (\<lambda>ch. ch \<noteq> CHR ''/'') (rev p)))),
      path_basename = (\<lambda>p. rev (takeWhile (\<lambda>ch. ch \<noteq> CHR ''/'') (rev p)))\<rparr>"

definition remote_dir_fails :: remote where
  "remote_dir_fails = \<lparr>checkResponse = Response 500, createResponse = FetchError ''unused'',
     uploadResponse = Response 200\<rparr>"

text \<open>
  Remote sides that accept everything and that time out on the content upload; a run
  of the gateway in which \<open>alice\<close> logs in and stores \<open>a.pdf\<close>, and her pending upload.
\<close>

definition remote_ok :: remote where
  "remote_ok = \<lparr>checkResponse = Response 200, createResponse = Response 200,
     uploadResponse = Response 200\<rparr>"

definition remote_down :: remote where
  "remote_down = \<lparr>checkResponse = Response 200, createResponse = Response 200,
     uploadResponse = FetchError ''timeout''\<rparr>"

definition one_upload :: "event list" where
  "one_upload = [Login 1 ''alice'' ''s1'', LibraryWritesFile ''scans/a.pdf'',
                 Stor 1 False ''scans/a.pdf'']"

definition the_upload :: pending_upload where
  "the_upload = \<lparr>pu_login = 0, pu_filePath = ''scans/a.pdf'', pu_exists = True\<rparr>"

text \<open>
  Runs with two logins of \<open>alice\<close>. In the first, the second login replaces the first
  and the idle timeout of the first login, which nothing cleared, fires. In the second,
  \<open>alice\<close> stores \<open>a.pdf\<close>, the upload succeeds, her connection closes and she logs in
  again before the auto-disconnect timeout of the upload fires. In the third, the second
  login replaces the first and stores \<open>a.pdf\<close>, the upload succeeds, and the idle
  timeout of the first login fires.
\<close>

definition stale_idle_timer :: "event list" where
  "stale_idle_timer = [Login 1 ''alice'' ''s1'', Login 2 ''alice'' ''s1'', TimerFires 0]"

definition relogin_after_release :: "event list" where
  "relogin_after_release =
     one_upload @ [UploadSettles 0 remote_ok,
                   LibrarySetsFlags 1 \<lparr>destroyed = True, readyState = ''closed''\<rparr>,
                   ConnectionClose 1, Login 2 ''alice'' ''s1'']"

definition upload_of_successor :: "event list" where
  "upload_of_successor =
     [Login 1 ''alice'' ''s1'', Login 2 ''alice'' ''s1'', LibraryWritesFile ''scans/a.pdf'',
      Stor 2 False ''scans/a.pdf'', UploadSettles 0 remote_ok, TimerFires 0]"

text \<open>
  Pending transfers of \<open>alice\<close>; environments without arrivals in which the first or
  the second upload times out, and one in which \<open>c.pdf\<close> arrives while \<open>a.pdf\<close> is
  uploaded; queues of two and of three staged files.
\<close>

definition transfer :: "nat \<Rightarrow> string \<Rightarrow> pending_transfer" where
  "transfer r name =
     \<lparr>pt_ref = r, pt_localPath = ''scans/'' @ name, pt_egnytePath = ''/Shared/alice/'' @ name,
      pt_fileName = name, pt_username = ''alice''\<rparr>"

definition quiet :: "upload_outcome \<Rightarrow> suspension" where
  "quiet r = \<lparr>sp_outcome = r, sp_during_upload = [], sp_during_delay = []\<rparr>"

definition first_fails :: "nat \<Rightarrow> suspension" where
  "first_fails i = (if i = 0 then quiet (UploadError ''timeout'') else quiet Uploaded)"

definition middle_fails :: "nat \<Rightarrow> suspension" where
  "middle_fails i = (if i = 1 then quiet (UploadError ''timeout'') else quiet Uploaded)"

definition arrival_during_first :: "nat \<Rightarrow> suspension" where
  "arrival_during_first i =
     (if i = 0
      then \<lparr>sp_outcome = Uploaded, sp_during_upload = [transfer 2 ''c.pdf''], sp_during_delay = []\<rparr>
      else quiet Uploaded)"

definition two_staged :: coordinator where
  "two_staged =
     \<lparr>uploadQueue = [transfer 0 ''a.pdf'', transfer 1 ''b.pdf''],
      staged = {''scans/a.pdf'', ''scans/b.pdf'', ''scans/c.pdf''}, journal = []\<rparr>"

definition three_staged :: coordinator where
  "three_staged =
     \<lparr>uploadQueue = [transfer 0 ''a.pdf'', transfer 1 ''b.pdf'', transfer 2 ''c.pdf''],
      staged = {''scans/a.pdf'', ''scans/b.pdf'', ''scans/c.pdf''}, journal = []\<rparr>"

section \<open>Properties of the production gateway v31\<close>

subsection \<open>The Map operations and the clean-up of stale sessions\<close>

lemma map_delete_filter:
  "distinct (map fst m) \<Longrightarrow> map_delete k m = filter (\<lambda>e. fst e \<noteq> k) m"
proof (induction m)
  case Nil show ?case by simp
next
  case (Cons e m)
  obtain k' v where e: "e = (k', v)" by (cases e)
  show ?case
  proof (cases "k' = k")
    case True
    then have "k \<notin> fst ` set m" using Cons.prems by (simp add: e)
    then have "filter (\<lambda>e. fst e \<noteq> k) m = m"
      by (auto simp: filter_id_conv)
    then show ?thesis using True by (simp add: e)
  next
    case False
    then show ?thesis using Cons by (simp add: e)
  qed
qed

lemma distinct_map_delete:
  "distinct (map fst m) \<Longrightarrow> distinct (map fst (map_delete k m))"
  by (simp add: map_delete_filter distinct_map_filter)

lemma keys_map_set: "fst ` set (map_set k v m) = insert k (fst ` set m)"
proof (induction m)
  case Nil show ?case by simp
next
  case (Cons e m)
  obtain k' v' where e: "e = (k', v')" by (cases e)
  show ?case using Cons.IH by (cases "k' = k") (simp_all add: e insert_commute)
qed

lemma distinct_map_set:
  "distinct (map fst m) \<Longrightarrow> distinct (map fst (map_set k v m))"
  by (induction m) (auto simp: keys_map_set)

lemma map_get_map_set: "map_get k (map_set k v m) = Some v"
  by (induction m) auto

lemma map_get_None_keys: "map_get k m = None \<longleftrightarrow> k \<notin> fst ` set m"
proof (induction m)
  case Nil show ?case by simp
next
  case (Cons e m)
  obtain k' v' where e: "e = (k', v')" by (cases e)
  show ?case using Cons.IH by (cases "k' = k") (simp_all add: e)
qed

lemma map_has_keys: "map_has k m \<longleftrightarrow> k \<in> fst ` set m"
proof (induction m)
  case Nil show ?case by simp
next
  case (Cons e m)
  obtain k' v' where e: "e = (k', v')" by (cases e)
  show ?case using Cons.IH by (cases "k' = k") (simp_all add: e)
qed

lemma map_get_delete: "distinct (map fst m) \<Longrightarrow> map_get k (map_delete k m) = None"
  by (auto simp: map_delete_filter map_get_None_keys)

lemma count_key_distinct:
  "distinct (map fst m) \<Longrightarrow> length (filter (\<lambda>e. fst e = k) m) \<le> 1"
  by (induction m) (auto simp: filter_empty_conv rev_image_eqI)

lemma count_key_present:
  "distinct (map fst m) \<Longrightarrow> map_get k m = Some v \<Longrightarrow> length (filter (\<lambda>e. fst e = k) m) = 1"
proof (induction m)
  case Nil then show ?case by simp
next
  case (Cons e m)
  obtain k' v' where e: "e = (k', v')" by (cases e)
  show ?case
  proof (cases "k' = k")
    case True
    then have "k \<notin> fst ` set m" using Cons.prems by (simp add: e)
    then have "filter (\<lambda>e. fst e = k) m = []"
      by (auto simp: filter_empty_conv)
    then show ?thesis using True by (simp add: e)
  next
    case False
    then show ?thesis using Cons by (simp add: e)
  qed
qed

lemma emit_fields [simp]:
  "activeConnections (emit e s) = activeConnections s"
  "connFlags (emit e s) = connFlags s"
  "timers (emit e s) = timers s"
  "nextTimer (emit e s) = nextTimer s"
  "logins (emit e s) = logins s"
  "uploads (emit e s) = uploads s"
  "files (emit e s) = files s"
  "effects (emit e s) = effects s @ [e]"
  by (simp_all add: emit_def)

lemma cleanup_other:
  "cleanup es s = s\<lparr>activeConnections := activeConnections (cleanup es s)\<rparr>"
proof (induction es arbitrary: s)
  case Nil show ?case by simp
next
  case (Cons e es)
  obtain u ci where e: "e = (u, ci)" by (cases e)
  show ?case
    unfolding e cleanup.simps
    by (subst Cons.IH) (simp split: if_splits)
qed

lemma cleanupStale_fields [simp]:
  "connFlags (cleanupStale s) = connFlags s"
  "timers (cleanupStale s) = timers s"
  "nextTimer (cleanupStale s) = nextTimer s"
  "logins (cleanupStale s) = logins s"
  "uploads (cleanupStale s) = uploads s"
  "files (cleanupStale s) = files s"
  "effects (cleanupStale s) = effects s"
  unfolding cleanupStale_def
  by (subst cleanup_other, simp)+

lemma is_stale_registry [simp]: "is_stale (s\<lparr>activeConnections := m\<rparr>) = is_stale s"
  by (rule ext) (simp add: is_stale_def)

lemma cleanup_filter:
  "distinct (map fst (activeConnections s)) \<Longrightarrow>
   activeConnections (cleanup es s) =
     filter (\<lambda>y. fst y \<notin> fst ` {x \<in> set es. is_stale s (ci_connection (snd x))})
       (activeConnections s)"
proof (induction es arbitrary: s)
  case Nil show ?case by simp
next
  case (Cons e es)
  obtain u ci where e: "e = (u, ci)" by (cases e)
  show ?case
  proof (cases "is_stale s (ci_connection ci)")
    case True
    let ?s' = "s\<lparr>activeConnections := map_delete u (activeConnections s)\<rparr>"
    have d: "distinct (map fst (activeConnections ?s'))"
      using Cons.prems by (simp add: distinct_map_delete)
    have "activeConnections (cleanup (e # es) s) = activeConnections (cleanup es ?s')"
      using True by (simp add: e)
    also have "\<dots> = filter (\<lambda>y. fst y \<notin> fst ` {x \<in> set es. is_stale s (ci_connection (snd x))})
        (map_delete u (activeConnections s))"
      using Cons.IH[OF d] by simp
    also have "\<dots> = filter (\<lambda>y. fst y \<notin> fst ` {x \<in> set (e # es). is_stale s (ci_connection (snd x))})
        (activeConnections s)"
    proof -
      have "{x \<in> set (e # es). is_stale s (ci_connection (snd x))} =
            insert e {x \<in> set es. is_stale s (ci_connection (snd x))}"
        using True by (auto simp: e)
      then have eq: "(\<lambda>y. fst y \<notin> fst ` {x \<in> set (e # es). is_stale s (ci_connection (snd x))}) =
            (\<lambda>y. fst y \<noteq> u \<and> fst y \<notin> fst ` {x \<in> set es. is_stale s (ci_connection (snd x))})"
        by (auto simp: e)
      show ?thesis
        by (simp only: eq map_delete_filter[OF Cons.prems] filter_filter)
    qed
    finally show ?thesis .
  next
    case False
    have "{x \<in> set (e # es). is_stale s (ci_connection (snd x))} =
          {x \<in> set es. is_stale s (ci_connection (snd x))}"
      using False by (auto simp: e)
    then show ?thesis using False Cons.IH[OF Cons.prems] by (simp add: e)
  qed
qed

lemma cleanupStale_filter:
  assumes "distinct (map fst (activeConnections s))"
  shows "activeConnections (cleanupStale s) =
     filter (\<lambda>e. \<not> is_stale s (ci_connection (snd e))) (activeConnections s)"
proof -
  have "\<And>e. e \<in> set (activeConnections s) \<Longrightarrow>
     (fst e \<notin> fst ` {x \<in> set (activeConnections s). is_stale s (ci_connection (snd x))}) =
     (\<not> is_stale s (ci_connection (snd e)))"
  proof -
    fix e assume e: "e \<in> set (activeConnections s)"
    have "\<And>x. x \<in> set (activeConnections s) \<Longrightarrow> fst x = fst e \<Longrightarrow> x = e"
      using assms e by (metis eq_key_imp_eq_value prod.collapse)
    then have "\<And>x. x \<in> set (activeConnections s) \<Longrightarrow> fst x = fst e \<Longrightarrow> snd x = snd e"
      by blast
    then show "(fst e \<notin> fst ` {x \<in> set (activeConnections s). is_stale s (ci_connection (snd x))}) =
     (\<not> is_stale s (ci_connection (snd e)))"
      using e by (force simp: image_iff)
  qed
  then show ?thesis
    unfolding cleanupStale_def cleanup_filter[OF assms]
    by (auto intro!: filter_cong)
qed

lemma distinct_cleanupStale:
  "distinct (map fst (activeConnections s)) \<Longrightarrow> distinct (map fst (activeConnections (cleanupStale s)))"
  by (simp add: cleanupStale_filter distinct_map_filter)

subsection \<open>The login handler\<close>

lemma registry_fields [simp]:
  "activeConnections (registry_delete u s) = map_delete u (activeConnections s)"
  "activeConnections (registry_set u ci s) = map_set u ci (activeConnections s)"
  "activeConnections (connection_close c s) = activeConnections s"
  "activeConnections (clearTimeout t s) = activeConnections s"
  "activeConnections (snd (setTimeout cb d s)) = activeConnections s"
  by (simp_all add: registry_delete_def registry_set_def connection_close_def clearTimeout_def
      setTimeout_def)

lemma effects_fields [simp]:
  "effects (registry_delete u s) = effects s @ [RegistryDelete u]"
  "effects (registry_set u ci s) = effects s @ [RegistrySet u (ci_connection ci)]"
  "effects (connection_close c s) = effects s @ [Close c]"
  "effects (clearTimeout t s) = effects s @ [TimerCleared t]"
  "effects (snd (setTimeout cb d s)) = effects s @ [TimerSet (nextTimer s) d cb]"
  by (simp_all add: registry_delete_def registry_set_def connection_close_def clearTimeout_def
      setTimeout_def)

lemma nextTimer_fields [simp]:
  "nextTimer (registry_delete u s) = nextTimer s"
  "nextTimer (registry_set u ci s) = nextTimer s"
  "nextTimer (connection_close c s) = nextTimer s"
  by (simp_all add: registry_delete_def registry_set_def connection_close_def)

text \<open>The four exits of the login handler.\<close>

lemma login_busy:
  "int (length (activeConnections (cleanupStale s))) \<ge> MAX_CONNECTIONS cfg \<Longrightarrow>
   login cfg c u pw s = emit (Reject c SERVER_BUSY) (cleanupStale s)"
  by (simp add: login_def Let_def)

lemma login_unknown:
  "\<not> int (length (activeConnections (cleanupStale s))) \<ge> MAX_CONNECTIONS cfg \<Longrightarrow>
   userMappings cfg u = None \<Longrightarrow>
   login cfg c u pw s = emit (Reject c (USER_NOT_FOUND u)) (cleanupStale s)"
  by (simp add: login_def Let_def)

lemma login_mismatch:
  "\<not> int (length (activeConnections (cleanupStale s))) \<ge> MAX_CONNECTIONS cfg \<Longrightarrow>
   userMappings cfg u = Some ui \<Longrightarrow> password ui \<noteq> pw \<Longrightarrow>
   login cfg c u pw s = emit (Reject c INVALID_PASSWORD) (cleanupStale s)"
  by (simp add: login_def Let_def)

lemma login_accept_effects:
  assumes "\<not> int (length (activeConnections (cleanupStale s))) \<ge> MAX_CONNECTIONS cfg"
    and "userMappings cfg u = Some ui" and "password ui = pw"
  shows "effects (login cfg c u pw s) = effects s @
      (case map_get u (activeConnections (cleanupStale s)) of
         Some ex \<Rightarrow> [Close (ci_connection ex), RegistryDelete u]
       | None \<Rightarrow> []) @
      [RegistrySet u c, TimerSet (nextTimer s) (IDLE_TIMEOUT cfg) (IdleTimeout u c), Resolve c]"
    and "activeConnections (login cfg c u pw s) =
      map_set u \<lparr>ci_connection = c, ci_username = u, ci_userInfo = ui\<rparr>
        (map_delete u (activeConnections (cleanupStale s)))"
proof -
  show "effects (login cfg c u pw s) = effects s @
      (case map_get u (activeConnections (cleanupStale s)) of
         Some ex \<Rightarrow> [Close (ci_connection ex), RegistryDelete u]
       | None \<Rightarrow> []) @
      [RegistrySet u c, TimerSet (nextTimer s) (IDLE_TIMEOUT cfg) (IdleTimeout u c), Resolve c]"
    using assms
    by (simp add: login_def Let_def setTimeout_def split: option.splits prod.splits)
  have nodel: "map_get u (activeConnections (cleanupStale s)) = None \<Longrightarrow>
     map_delete u (activeConnections (cleanupStale s)) = activeConnections (cleanupStale s)"
    for s :: gateway
  proof -
    have "\<And>m :: (string \<times> connectionInfo) list. map_get u m = None \<Longrightarrow> map_delete u m = m"
      subgoal for m by (induction m) (auto split: if_splits)
      done
    then show "map_get u (activeConnections (cleanupStale s)) = None \<Longrightarrow>
     map_delete u (activeConnections (cleanupStale s)) = activeConnections (cleanupStale s)"
      by blast
  qed
  show "activeConnections (login cfg c u pw s) =
      map_set u \<lparr>ci_connection = c, ci_username = u, ci_userInfo = ui\<rparr>
        (map_delete u (activeConnections (cleanupStale s)))"
    using assms nodel[of s]
    by (simp add: login_def Let_def setTimeout_def split: option.splits prod.splits)
qed

lemma last_outcome_append:
  "last_outcome c (xs @ [e]) =
     (if e = Resolve c then Some Accepted
      else case e of Reject c' m \<Rightarrow> (if c' = c then Some (Rejected m) else last_outcome c xs)
                   | _ \<Rightarrow> last_outcome c xs)"
  by (induction xs) (auto split: option.splits effect.splits)

lemma login_outcome_cases:
  "login_outcome cfg c u pw s = Some
     (if int (length (activeConnections (cleanupStale s))) \<ge> MAX_CONNECTIONS cfg
      then Rejected SERVER_BUSY
      else if userMappings cfg u = None then Rejected (USER_NOT_FOUND u)
      else if map_option password (userMappings cfg u) \<noteq> Some pw then Rejected INVALID_PASSWORD
      else Accepted)"
proof (cases "int (length (activeConnections (cleanupStale s))) \<ge> MAX_CONNECTIONS cfg")
  case True
  then show ?thesis by (simp add: login_outcome_def login_busy)
next
  case notbusy: False
  show ?thesis
  proof (cases "userMappings cfg u")
    case None
    then show ?thesis using notbusy by (simp add: login_outcome_def login_unknown)
  next
    case (Some ui)
    show ?thesis
    proof (cases "password ui = pw")
      case True
      have "last_outcome c ((case map_get u (activeConnections (cleanupStale s)) of
         Some ex \<Rightarrow> [Close (ci_connection ex), RegistryDelete u]
       | None \<Rightarrow> []) @
      [RegistrySet u c, TimerSet (nextTimer s) (IDLE_TIMEOUT cfg) (IdleTimeout u c), Resolve c])
        = Some Accepted"
        using last_outcome_append[of c _ "Resolve c"]
        by (metis append.assoc append_Cons append_Nil)
      then show ?thesis using notbusy Some True
        by (simp add: login_outcome_def login_accept_effects(1)[OF notbusy Some True])
    next
      case False
      then show ?thesis using notbusy Some
        by (simp add: login_outcome_def login_mismatch)
    qed
  qed
qed

text \<open>The definitions a concrete run of the gateway unfolds.\<close>

lemmas eval_defs = scenario_def run_def started_def login_def cleanupStale_def emit_def
  registry_set_def registry_delete_def connection_close_def setTimeout_def is_stale_def
  login_outcome_def SERVER_BUSY_def USER_NOT_FOUND_def INVALID_PASSWORD_def Let_def

subsection \<open>Admission\<close>

text \<open>
  Claim C1, as stated, fails: with \<open>MAX_CONNECTIONS = 1\<close> the second \<open>alice/s1\<close>,
  made while the first session is registered and its connection is not stale, is
  rejected with the capacity error, and \<open>close\<close> is not called on the first
  connection.
\<close>

theorem duplicate_login_at_capacity_one_rejected:
  "login_outcome (scenario 1) 1 ''alice'' ''s1'' started = Some Accepted
   \<and> login_outcome (scenario 1) 2 ''alice'' ''s1'' (run (scenario 1) [Login 1 ''alice'' ''s1''])
       = Some (Rejected SERVER_BUSY)
   \<and> Close 1 \<notin> set (effects (run (scenario 1)
                      [Login 1 ''alice'' ''s1'', Login 2 ''alice'' ''s1'']))"
  by (simp add: eval_defs)

text \<open>
  Claim C1, amended. With \<open>MAX_CONNECTIONS = 1\<close>: \<open>alice/s1\<close> is admitted; a second
  \<open>alice/s1\<close> while the first session is live is rejected with the capacity error and
  the first session stays registered with its connection open; \<open>bob\<close> with any secret is
  rejected with the capacity error. With \<open>MAX_CONNECTIONS = 2\<close>: the second \<open>alice/s1\<close>
  is admitted, the first connection is closed and its entry deleted before the new entry
  is set; \<open>bob\<close>, who is not in the credential table, is then rejected as unknown.
\<close>

theorem duplicate_login_scenario:
  "login_outcome (scenario 1) 1 ''alice'' ''s1'' started = Some Accepted
   \<and> login_outcome (scenario 1) 2 ''alice'' ''s1'' (run (scenario 1) [Login 1 ''alice'' ''s1''])
       = Some (Rejected SERVER_BUSY)
   \<and> effects (run (scenario 1) [Login 1 ''alice'' ''s1'', Login 2 ''alice'' ''s1'']) =
       [RegistrySet ''alice'' 1, TimerSet 0 60000 (IdleTimeout ''alice'' 1), Resolve 1,
        Reject 2 SERVER_BUSY]
   \<and> map ci_connection (map snd (activeConnections (run (scenario 1)
         [Login 1 ''alice'' ''s1'', Login 2 ''alice'' ''s1'']))) = [1]
   \<and> (\<forall>pw. login_outcome (scenario 1) 3 ''bob'' pw
              (run (scenario 1) [Login 1 ''alice'' ''s1'', Login 2 ''alice'' ''s1''])
            = Some (Rejected SERVER_BUSY))
   \<and> login_outcome (scenario 2) 2 ''alice'' ''s1'' (run (scenario 2) [Login 1 ''alice'' ''s1''])
       = Some Accepted
   \<and> effects (run (scenario 2) [Login 1 ''alice'' ''s1'', Login 2 ''alice'' ''s1'']) =
       [RegistrySet ''alice'' 1, TimerSet 0 60000 (IdleTimeout ''alice'' 1), Resolve 1,
        Close 1, RegistryDelete ''alice'', RegistrySet ''alice'' 2,
        TimerSet 1 60000 (IdleTimeout ''alice'' 2), Resolve 2]
   \<and> map ci_connection (map snd (activeConnections (run (scenario 2)
         [Login 1 ''alice'' ''s1'', Login 2 ''alice'' ''s1'']))) = [2]
   \<and> (\<forall>pw. login_outcome (scenario 2) 3 ''bob'' pw
              (run (scenario 2) [Login 1 ''alice'' ''s1'', Login 2 ''alice'' ''s1''])
            = Some (Rejected (USER_NOT_FOUND ''bob'')))"
  by (simp add: eval_defs)

text \<open>
  Claim C10. The sessions that count against the capacity are those left by the
  clean-up of stale connections (the registered sessions whose connection is neither
  destroyed nor closed). When they reach \<open>MAX_CONNECTIONS\<close>, every login is rejected
  with the capacity error whatever its username and password, nothing is closed and the
  registry keeps exactly those sessions, a session of the same username included;
  below the capacity an unknown username is rejected first, then a wrong password, and
  only then is the login accepted. A login that is not accepted does nothing but the
  clean-up and the rejection, so a session of the same username is terminated only
  after all the checks have passed.
\<close>

theorem login_check_order:
  assumes "distinct (map fst (activeConnections s))"
  shows "login_outcome cfg c u pw s = Some
     (if int (length (filter (\<lambda>e. \<not> is_stale s (ci_connection (snd e))) (activeConnections s)))
           \<ge> MAX_CONNECTIONS cfg
      then Rejected SERVER_BUSY
      else if userMappings cfg u = None then Rejected (USER_NOT_FOUND u)
      else if map_option password (userMappings cfg u) \<noteq> Some pw then Rejected INVALID_PASSWORD
      else Accepted)
   \<and> (int (length (filter (\<lambda>e. \<not> is_stale s (ci_connection (snd e))) (activeConnections s)))
           \<ge> MAX_CONNECTIONS cfg \<longrightarrow>
        activeConnections (login cfg c u pw s) =
          filter (\<lambda>e. \<not> is_stale s (ci_connection (snd e))) (activeConnections s)
        \<and> effects (login cfg c u pw s) = effects s @ [Reject c SERVER_BUSY])
   \<and> (login_outcome cfg c u pw s \<noteq> Some Accepted \<longrightarrow>
        (\<exists>m. login cfg c u pw s = emit (Reject c m) (cleanupStale s)))"
proof -
  have rejected: "login_outcome cfg c u pw s \<noteq> Some Accepted \<longrightarrow>
        (\<exists>m. login cfg c u pw s = emit (Reject c m) (cleanupStale s))"
  proof (cases "int (length (activeConnections (cleanupStale s))) \<ge> MAX_CONNECTIONS cfg")
    case True
    then show ?thesis using login_busy[of cfg s c u pw] by blast
  next
    case notbusy: False
    show ?thesis
    proof (cases "userMappings cfg u")
      case None
      then show ?thesis using login_unknown[OF notbusy, of u c pw] by blast
    next
      case (Some ui)
      show ?thesis
      proof (cases "password ui = pw")
        case True
        then show ?thesis
          using login_outcome_cases[of cfg c u pw s] notbusy Some by simp
      next
        case False
        then show ?thesis using login_mismatch[OF notbusy Some, of pw c] by blast
      qed
    qed
  qed
  show ?thesis
    using login_outcome_cases[of cfg c u pw s] login_busy[of cfg s c u pw] rejected
    by (simp add: cleanupStale_filter[OF assms])
qed

theorem login_check_order_witness:
  "distinct (map fst (activeConnections (run (scenario 1) [Login 1 ''alice'' ''s1''])))
   \<and> int (length (filter (\<lambda>e. \<not> is_stale (run (scenario 1) [Login 1 ''alice'' ''s1''])
                                   (ci_connection (snd e)))
              (activeConnections (run (scenario 1) [Login 1 ''alice'' ''s1'']))))
        \<ge> MAX_CONNECTIONS (scenario 1)
   \<and> login_outcome (scenario 1) 2 ''alice'' ''s1'' (run (scenario 1) [Login 1 ''alice'' ''s1''])
       = Some (Rejected SERVER_BUSY)
   \<and> login_outcome (scenario 1) 2 ''bob'' ''anything'' (run (scenario 1) [Login 1 ''alice'' ''s1''])
       = Some (Rejected SERVER_BUSY)
   \<and> effects (login (scenario 1) 2 ''alice'' ''s1'' (run (scenario 1) [Login 1 ''alice'' ''s1''])) =
       effects (run (scenario 1) [Login 1 ''alice'' ''s1'']) @ [Reject 2 SERVER_BUSY]"
proof -
  have d: "distinct (map fst (activeConnections (run (scenario 1) [Login 1 ''alice'' ''s1''])))"
    by (simp add: eval_defs)
  have full: "int (length (filter (\<lambda>e. \<not> is_stale (run (scenario 1) [Login 1 ''alice'' ''s1''])
                                   (ci_connection (snd e)))
              (activeConnections (run (scenario 1) [Login 1 ''alice'' ''s1'']))))
        \<ge> MAX_CONNECTIONS (scenario 1)"
    by (simp add: eval_defs)
  show ?thesis
    using d full
      login_check_order[OF d, of "scenario 1" 2 "''alice''" "''s1''"]
      login_check_order[OF d, of "scenario 1" 2 "''bob''" "''anything''"]
    by simp
qed

text \<open>
  Claim C6, as stated, fails on the production gateway v31: below capacity an unknown
  username is rejected with \<open>User "mallory" not found\<close>, a wrong password for a known
  username with \<open>Invalid password\<close>.
\<close>

theorem v31_rejections_differ:
  "login_outcome (scenario 2) 1 ''mallory'' ''guess'' started
     = Some (Rejected (USER_NOT_FOUND ''mallory''))
   \<and> login_outcome (scenario 2) 1 ''alice'' ''guess'' started = Some (Rejected INVALID_PASSWORD)
   \<and> login_outcome (scenario 2) 1 ''mallory'' ''guess'' started
     \<noteq> login_outcome (scenario 2) 1 ''alice'' ''guess'' started"
  by (simp add: eval_defs)

text \<open>
  Claim C6, amended. In the timer-driven gateway every failed authentication is
  rejected with the one error \<open>Authentication failed\<close>, for an unknown username as for
  a wrong password. In the production gateway v31, below capacity, the rejection names
  the cause: \<open>User ... not found\<close> for an unknown username, \<open>Invalid password\<close> for a
  wrong password of a known one.
\<close>

theorem rejection_uniform_in_timer_gateway:
  "(login_check um u pw = Accepted \<or> login_check um u pw = Rejected AUTHENTICATION_FAILED)
   \<and> (um u = None \<longrightarrow> login_check um u pw = Rejected AUTHENTICATION_FAILED)
   \<and> (\<forall>ui. um u = Some ui \<and> password ui \<noteq> pw \<longrightarrow>
         login_check um u pw = Rejected AUTHENTICATION_FAILED)
   \<and> (login_check um u pw = Accepted \<longleftrightarrow> (\<exists>ui. um u = Some ui \<and> password ui = pw))
   \<and> (\<not> int (length (activeConnections (cleanupStale s))) \<ge> MAX_CONNECTIONS cfg \<longrightarrow>
        (userMappings cfg u = None \<longrightarrow>
           login_outcome cfg c u pw s = Some (Rejected (USER_NOT_FOUND u)))
      \<and> (\<forall>ui. userMappings cfg u = Some ui \<and> password ui \<noteq> pw \<longrightarrow>
           login_outcome cfg c u pw s = Some (Rejected INVALID_PASSWORD)))"
  using login_outcome_cases[of cfg c u pw s]
  by (auto simp: login_check_def)

theorem rejection_uniform_in_timer_gateway_witness:
  "login_check (userMappings (scenario 2)) ''mallory'' ''guess'' = Rejected AUTHENTICATION_FAILED
   \<and> login_check (userMappings (scenario 2)) ''alice'' ''guess'' = Rejected AUTHENTICATION_FAILED
   \<and> login_check (userMappings (scenario 2)) ''alice'' ''s1'' = Accepted
   \<and> login_outcome (scenario 2) 1 ''mallory'' ''guess'' started
       = Some (Rejected (USER_NOT_FOUND ''mallory''))
   \<and> login_outcome (scenario 2) 1 ''alice'' ''guess'' started = Some (Rejected INVALID_PASSWORD)"
  using rejection_uniform_in_timer_gateway
          [where um = "userMappings (scenario 2)" and u = "''mallory''" and pw = "''guess''"
             and s = started and cfg = "scenario 2" and c = 1]
        rejection_uniform_in_timer_gateway
          [where um = "userMappings (scenario 2)" and u = "''alice''" and pw = "''guess''"
             and s = started and cfg = "scenario 2" and c = 1]
        rejection_uniform_in_timer_gateway
          [where um = "userMappings (scenario 2)" and u = "''alice''" and pw = "''s1''"
             and s = started and cfg = "scenario 2" and c = 1]
  by (simp add: scenario_def started_def cleanupStale_def)

subsection \<open>One registry entry per username\<close>

lemma registry_ok_cong:
  "activeConnections s' = activeConnections s \<Longrightarrow> registry_ok s \<Longrightarrow> registry_ok s'"
  by (simp add: registry_ok_def)

lemma registry_ok_delete:
  "activeConnections s' = map_delete u (activeConnections s) \<Longrightarrow> registry_ok s \<Longrightarrow> registry_ok s'"
  by (simp add: registry_ok_def distinct_map_delete)

lemma registry_ok_login: "registry_ok s \<Longrightarrow> registry_ok (login cfg c u pw s)"
proof -
  assume ok: "registry_ok s"
  then have ok': "registry_ok (cleanupStale s)"
    by (simp add: registry_ok_def distinct_cleanupStale)
  show ?thesis
  proof (cases "int (length (activeConnections (cleanupStale s))) \<ge> MAX_CONNECTIONS cfg")
    case True
    then show ?thesis using ok' by (simp add: login_busy registry_ok_def)
  next
    case notbusy: False
    show ?thesis
    proof (cases "userMappings cfg u")
      case None
      then show ?thesis using ok' notbusy by (simp add: login_unknown registry_ok_def)
    next
      case (Some ui)
      show ?thesis
      proof (cases "password ui = pw")
        case True
        show ?thesis
          using ok' login_accept_effects(2)[OF notbusy Some True, of c]
          by (simp add: registry_ok_def distinct_map_set distinct_map_delete)
      next
        case False
        then show ?thesis using ok' notbusy Some by (simp add: login_mismatch registry_ok_def)
      qed
    qed
  qed
qed

lemma resetIdleTimer_registry [simp]:
  "activeConnections (resetIdleTimer cfg k s) = activeConnections s"
  by (simp add: resetIdleTimer_def Let_def setTimeout_def clearTimeout_def split: prod.splits)

lemma stor_registry [simp]: "activeConnections (stor cfg err p k s) = activeConnections s"
  by (simp add: stor_def Let_def)

lemma on_close_registry [simp]:
  "activeConnections (on_close k s) = map_delete (lc_username (logins s ! k)) (activeConnections s)"
  by (simp add: on_close_def)

lemma on_connection_preserves:
  assumes "\<And>k s. P s \<Longrightarrow> P (h k s)" and "P s"
  shows "P (on_connection c h s)"
proof -
  have "\<And>s. P s \<Longrightarrow> P (fold (\<lambda>k s'. if lc_connection (logins s' ! k) = c then h k s' else s') ks s)"
    for ks
    by (induction ks) (simp_all add: assms(1))
  then show ?thesis using assms(2) by (simp add: on_connection_def)
qed

lemma fold_emit_fields [simp]:
  "activeConnections (fold (\<lambda>q. emit (f q)) qs s) = activeConnections s"
  "files (fold (\<lambda>q. emit (f q)) qs s) = files s"
  "timers (fold (\<lambda>q. emit (f q)) qs s) = timers s"
  "nextTimer (fold (\<lambda>q. emit (f q)) qs s) = nextTimer s"
  "logins (fold (\<lambda>q. emit (f q)) qs s) = logins s"
  "effects (fold (\<lambda>q. emit (f q)) qs s) = effects s @ map f qs"
  by (induction qs arbitrary: s) simp_all

lemma stor_settled_registry [simp]:
  "activeConnections (stor_settled cfg r pu s) = activeConnections s"
  by (simp add: stor_settled_def Let_def split: prod.splits sum.splits)

lemma upload_settles_registry [simp]:
  "activeConnections (upload_settles cfg j r s) = activeConnections s"
  by (simp add: upload_settles_def)

lemma registry_ok_timer_fires: "registry_ok s \<Longrightarrow> registry_ok (timer_fires t s)"
proof -
  assume ok: "registry_ok s"
  show ?thesis
  proof (cases "map_get t (timers s)")
    case None
    then show ?thesis using ok by (simp add: timer_fires_def)
  next
    case (Some dc)
    obtain d cb where dc: "dc = (d, cb)" by (cases dc)
    show ?thesis using ok Some
      by (cases cb) (simp_all add: timer_fires_def dc registry_ok_def distinct_map_delete)
  qed
qed

lemma registry_ok_step: "registry_ok s \<Longrightarrow> registry_ok (step cfg s ev)"
proof (cases ev)
  case (Login c u pw)
  assume "registry_ok s" then show ?thesis by (simp add: Login registry_ok_login)
next
  case (Stor c err p)
  assume "registry_ok s" then show ?thesis
    unfolding Stor step.simps
    by (rule on_connection_preserves[rotated]) (simp add: registry_ok_def)
next
  case (UploadSettles j r)
  assume "registry_ok s" then show ?thesis by (simp add: UploadSettles registry_ok_def)
next
  case (ConnectionClose c)
  assume "registry_ok s" then show ?thesis
    unfolding ConnectionClose step.simps
    by (rule on_connection_preserves[rotated]) (simp add: registry_ok_def distinct_map_delete)
next
  case (ConnectionError c)
  assume "registry_ok s" then show ?thesis
    unfolding ConnectionError step.simps
    by (rule on_connection_preserves[rotated]) (simp add: registry_ok_def distinct_map_delete)
next
  case (ConnectionEnd c)
  assume "registry_ok s" then show ?thesis
    unfolding ConnectionEnd step.simps
    by (rule on_connection_preserves[rotated]) (simp add: registry_ok_def distinct_map_delete)
next
  case (OtherCommand c)
  assume "registry_ok s" then show ?thesis
    unfolding OtherCommand step.simps
    by (rule on_connection_preserves[rotated]) (simp add: registry_ok_def)
next
  case (TimerFires t)
  assume "registry_ok s" then show ?thesis by (simp add: TimerFires registry_ok_timer_fires)
next
  case PeriodicCleanup
  assume "registry_ok s" then show ?thesis
    by (simp add: PeriodicCleanup registry_ok_def distinct_cleanupStale)
next
  case (LibrarySetsFlags c fl)
  assume "registry_ok s" then show ?thesis by (simp add: LibrarySetsFlags registry_ok_def)
next
  case (LibraryWritesFile p)
  assume "registry_ok s" then show ?thesis by (simp add: LibraryWritesFile registry_ok_def)
qed

lemma registry_ok_foldl: "registry_ok s \<Longrightarrow> registry_ok (foldl (step cfg) s evs)"
  by (induction evs arbitrary: s) (simp_all add: registry_ok_step)

lemma registry_ok_run: "registry_ok (run cfg evs)"
  unfolding run_def by (rule registry_ok_foldl) (simp add: registry_ok_def started_def)

text \<open>
  The registry alone. In every state the gateway reaches from its start, by any
  sequence of logins, uploads, connection events, timers and clean-ups, the registry
  holds at most one entry per username. When a login is accepted for a username that
  has an entry in the registry (after the clean-up of stale ones), the handler calls
  \<open>close\<close> on the connection of that entry, then deletes the entry, and only then sets
  the entry of the new session. This says nothing of a session that is open and has
  lost its entry.
\<close>

theorem registry_one_entry_per_username:
  "(\<forall>u. length (filter (\<lambda>e. fst e = u) (activeConnections (run cfg evs))) \<le> 1)
   \<and> (\<forall>c u pw ex.
        map_get u (activeConnections (cleanupStale (run cfg evs))) = Some ex
        \<and> login_outcome cfg c u pw (run cfg evs) = Some Accepted \<longrightarrow>
          effects (login cfg c u pw (run cfg evs)) =
            effects (run cfg evs) @
              [Close (ci_connection ex), RegistryDelete u, RegistrySet u c,
               TimerSet (nextTimer (run cfg evs)) (IDLE_TIMEOUT cfg) (IdleTimeout u c), Resolve c]
        \<and> map_get u (map_delete u (activeConnections (cleanupStale (run cfg evs)))) = None
        \<and> map_option ci_connection (map_get u (activeConnections (login cfg c u pw (run cfg evs))))
            = Some c
        \<and> length (filter (\<lambda>e. fst e = u) (activeConnections (login cfg c u pw (run cfg evs)))) = 1)"
proof (intro conjI allI impI)
  fix u
  show "length (filter (\<lambda>e. fst e = u) (activeConnections (run cfg evs))) \<le> 1"
    using registry_ok_run[of cfg evs] count_key_distinct[of "activeConnections (run cfg evs)" u]
    by (simp add: registry_ok_def)
next
  fix c u pw ex
  assume a: "map_get u (activeConnections (cleanupStale (run cfg evs))) = Some ex
        \<and> login_outcome cfg c u pw (run cfg evs) = Some Accepted"
  let ?s = "run cfg evs"
  have ok: "distinct (map fst (activeConnections (cleanupStale ?s)))"
    using registry_ok_run[of cfg evs] by (simp add: registry_ok_def distinct_cleanupStale)
  from a login_outcome_cases[of cfg c u pw ?s]
  have notbusy: "\<not> int (length (activeConnections (cleanupStale ?s))) \<ge> MAX_CONNECTIONS cfg"
    and known: "userMappings cfg u \<noteq> None"
    and pw: "map_option password (userMappings cfg u) = Some pw"
    by (auto split: if_splits)
  then obtain ui where ui: "userMappings cfg u = Some ui" "password ui = pw" by auto
  note acc = login_accept_effects[OF notbusy ui, of c]
  show "effects (login cfg c u pw ?s) =
            effects ?s @
              [Close (ci_connection ex), RegistryDelete u, RegistrySet u c,
               TimerSet (nextTimer ?s) (IDLE_TIMEOUT cfg) (IdleTimeout u c), Resolve c]"
    using acc(1) a by simp
  show "map_get u (map_delete u (activeConnections (cleanupStale ?s))) = None"
    using ok by (rule map_get_delete)
  show "map_option ci_connection (map_get u (activeConnections (login cfg c u pw ?s))) = Some c"
    using acc(2) by (simp add: map_get_map_set)
  have "distinct (map fst (activeConnections (login cfg c u pw ?s)))"
    using registry_ok_login[OF registry_ok_run[of cfg evs], of cfg c u pw]
    by (simp add: registry_ok_def)
  then show "length (filter (\<lambda>e. fst e = u) (activeConnections (login cfg c u pw ?s))) = 1"
    by (rule count_key_present) (simp add: acc(2) map_get_map_set)
qed

theorem registry_one_entry_per_username_witness:
  "map_get ''alice'' (activeConnections (cleanupStale (run (scenario 2) [Login 1 ''alice'' ''s1''])))
     = Some \<lparr>ci_connection = 1, ci_username = ''alice'',
             ci_userInfo = \<lparr>password = ''s1'', email = ''alice@example.com'',
                             egnytePath = ''/Shared/alice''\<rparr>\<rparr>
   \<and> login_outcome (scenario 2) 2 ''alice'' ''s1'' (run (scenario 2) [Login 1 ''alice'' ''s1''])
       = Some Accepted
   \<and> effects (login (scenario 2) 2 ''alice'' ''s1'' (run (scenario 2) [Login 1 ''alice'' ''s1''])) =
       effects (run (scenario 2) [Login 1 ''alice'' ''s1'']) @
         [Close 1, RegistryDelete ''alice'', RegistrySet ''alice'' 2,
          TimerSet 1 60000 (IdleTimeout ''alice'' 2), Resolve 2]
   \<and> length (filter (\<lambda>e. fst e = ''alice'')
         (activeConnections (login (scenario 2) 2 ''alice'' ''s1''
            (run (scenario 2) [Login 1 ''alice'' ''s1''])))) = 1"
proof -
  have g: "map_get ''alice'' (activeConnections (cleanupStale (run (scenario 2) [Login 1 ''alice'' ''s1''])))
     = Some \<lparr>ci_connection = 1, ci_username = ''alice'',
             ci_userInfo = \<lparr>password = ''s1'', email = ''alice@example.com'',
                             egnytePath = ''/Shared/alice''\<rparr>\<rparr>"
    by (simp add: eval_defs)
  have a: "login_outcome (scenario 2) 2 ''alice'' ''s1'' (run (scenario 2) [Login 1 ''alice'' ''s1''])
       = Some Accepted"
    by (simp add: eval_defs)
  have n: "nextTimer (run (scenario 2) [Login 1 ''alice'' ''s1'']) = 1"
    "IDLE_TIMEOUT (scenario 2) = 60000"
    by (simp_all add: eval_defs)
  from registry_one_entry_per_username[of "scenario 2" "[Login 1 ''alice'' ''s1'']"] g a n
  show ?thesis by simp
qed

subsection \<open>STOR handler and auto-disconnect\<close>

lemma set_map_delete: "set (map_delete k m) \<subseteq> set m"
proof (induction m)
  case Nil show ?case by simp
next
  case (Cons e m)
  obtain k' v where e: "e = (k', v)" by (cases e)
  show ?case using Cons.IH by (cases "k' = k") (auto simp: e)
qed

lemma auto_emit [simp]: "auto_disconnects (emit e s) = auto_disconnects s"
  by (simp add: auto_disconnects_def)

lemma auto_registry [simp]:
  "auto_disconnects (registry_delete u s) = auto_disconnects s"
  "auto_disconnects (registry_set u ci s) = auto_disconnects s"
  "auto_disconnects (connection_close c s) = auto_disconnects s"
  "auto_disconnects (cleanupStale s) = auto_disconnects s"
  by (simp_all add: auto_disconnects_def registry_delete_def registry_set_def connection_close_def)

lemma auto_clearTimeout: "set (auto_disconnects (clearTimeout t s)) \<subseteq> set (auto_disconnects s)"
  using set_map_delete[of t "timers s"] by (auto simp: auto_disconnects_def clearTimeout_def)

lemma auto_setTimeout:
  "auto_disconnects (snd (setTimeout cb d s)) =
     auto_disconnects s @ (if is_auto_disconnect cb then [(nextTimer s, d, cb)] else [])"
  by (simp add: auto_disconnects_def setTimeout_def)

lemma auto_fields [simp]:
  "auto_disconnects (s\<lparr>logins := l\<rparr>) = auto_disconnects s"
  "auto_disconnects (s\<lparr>uploads := up\<rparr>) = auto_disconnects s"
  "auto_disconnects (s\<lparr>files := fs\<rparr>) = auto_disconnects s"
  "auto_disconnects (s\<lparr>connFlags := fl\<rparr>) = auto_disconnects s"
  "auto_disconnects (s\<lparr>activeConnections := m\<rparr>) = auto_disconnects s"
  by (simp_all add: auto_disconnects_def)

lemma auto_login: "auto_disconnects (login cfg c u pw s) = auto_disconnects s"
proof -
  have "timers (login cfg c u pw s) = timers s \<or>
        timers (login cfg c u pw s) = timers s @ [(nextTimer s, IDLE_TIMEOUT cfg, IdleTimeout u c)]"
    by (simp add: login_def Let_def setTimeout_def registry_set_def registry_delete_def
        connection_close_def split: option.splits)
  then show ?thesis by (auto simp: auto_disconnects_def)
qed

lemma auto_resetIdleTimer:
  "set (auto_disconnects (resetIdleTimer cfg k s)) \<subseteq> set (auto_disconnects s)"
proof -
  let ?lc = "logins s ! k"
  let ?s1 = "clearTimeout (lc_idleTimer ?lc) s"
  have "auto_disconnects (resetIdleTimer cfg k s) =
        auto_disconnects (snd (setTimeout (IdleTimeout (lc_username ?lc) (lc_connection ?lc))
           (IDLE_TIMEOUT cfg) ?s1))"
    by (simp add: resetIdleTimer_def Let_def split: prod.splits)
  then show ?thesis using auto_clearTimeout[of "lc_idleTimer ?lc" s]
    by (simp add: auto_setTimeout)
qed

lemma auto_stor: "set (auto_disconnects (stor cfg err p k s)) \<subseteq> set (auto_disconnects s)"
  using auto_resetIdleTimer[of cfg k s] by (simp add: stor_def Let_def)

lemma auto_on_close: "set (auto_disconnects (on_close k s)) \<subseteq> set (auto_disconnects s)"
  using auto_clearTimeout[of "lc_idleTimer (logins s ! k)"
      "registry_delete (lc_username (logins s ! k)) s"]
  by (simp add: on_close_def)

lemma auto_on_connection:
  assumes "\<And>k s. set (auto_disconnects (h k s)) \<subseteq> set (auto_disconnects s)"
  shows "set (auto_disconnects (on_connection c h s)) \<subseteq> set (auto_disconnects s)"
proof (rule on_connection_preserves[where P = "\<lambda>s'. set (auto_disconnects s') \<subseteq> set (auto_disconnects s)"])
  fix k s' assume "set (auto_disconnects s') \<subseteq> set (auto_disconnects s)"
  then show "set (auto_disconnects (h k s')) \<subseteq> set (auto_disconnects s)"
    using assms[of k s'] by blast
qed simp

lemma auto_timer_fires: "set (auto_disconnects (timer_fires t s)) \<subseteq> set (auto_disconnects s)"
proof (cases "map_get t (timers s)")
  case None
  then show ?thesis by (simp add: timer_fires_def)
next
  case (Some dc)
  obtain d cb where dc: "dc = (d, cb)" by (cases dc)
  have "set (auto_disconnects (s\<lparr>timers := map_delete t (timers s)\<rparr>)) \<subseteq> set (auto_disconnects s)"
    using set_map_delete[of t "timers s"] by (auto simp: auto_disconnects_def)
  then show ?thesis using Some
    by (cases cb) (simp_all add: timer_fires_def dc)
qed

lemma stor_settled_files:
  "files (stor_settled cfg r pu s) =
     (case settle_result cfg r pu s of Inr x \<Rightarrow> files s - {pu_filePath pu} | Inl err \<Rightarrow> files s)"
  by (cases "pu_filePath pu \<in> files s")
     (simp_all add: stor_settled_def settle_result_def Let_def unlinkSync_def setTimeout_def
        split: prod.splits sum.splits)

lemma stor_settled_failure:
  assumes "settle_result cfg r pu s = Inl err"
  shows "timers (stor_settled cfg r pu s) = timers s"
    and "activeConnections (stor_settled cfg r pu s) = activeConnections s"
    and "files (stor_settled cfg r pu s) = files s"
    and "\<forall>c. Close c \<notin> set (fresh_effects s (stor_settled cfg r pu s))"
  using assms
  by (auto simp: stor_settled_def settle_result_def Let_def fresh_effects_def
      split: prod.splits sum.splits)

lemma stor_settled_success:
  assumes "settle_result cfg r pu s = Inr x"
  shows "timers (stor_settled cfg r pu s) =
           timers s @ [(nextTimer s, AUTO_DISCONNECT_DELAY cfg,
                        AutoDisconnect (lc_username (logins s ! pu_login pu))
                                       (lc_connection (logins s ! pu_login pu)))]"
    and "activeConnections (stor_settled cfg r pu s) = activeConnections s"
    and "\<forall>c. Close c \<notin> set (fresh_effects s (stor_settled cfg r pu s))"
  using assms
  by (auto simp: stor_settled_def settle_result_def Let_def fresh_effects_def setTimeout_def
      unlinkSync_def split: prod.splits sum.splits if_splits)

lemma settle_result_uploads [simp]:
  "settle_result cfg r pu (s\<lparr>uploads := up\<rparr>) = settle_result cfg r pu s"
  by (simp add: settle_result_def)

lemma auto_upload_settles:
  "set (auto_disconnects (upload_settles cfg j r s)) \<subseteq> set (auto_disconnects s)
   \<or> (j < length (uploads s) \<and> (\<exists>x. settle_result cfg r (uploads s ! j) s = Inr x))"
proof (cases "j < length (uploads s)")
  case False
  then show ?thesis by (simp add: upload_settles_def)
next
  case True
  let ?s' = "s\<lparr>uploads := take j (uploads s) @ drop (Suc j) (uploads s)\<rparr>"
  show ?thesis
  proof (cases "settle_result cfg r (uploads s ! j) s")
    case (Inl err)
    then have "settle_result cfg r (uploads s ! j) ?s' = Inl err" by simp
    from stor_settled_failure(1)[OF this]
    have "auto_disconnects (upload_settles cfg j r s) = auto_disconnects s"
      using True by (simp add: upload_settles_def auto_disconnects_def)
    then show ?thesis by simp
  next
    case (Inr x)
    then show ?thesis using True by blast
  qed
qed

lemma auto_step:
  "set (auto_disconnects (step cfg s ev)) \<subseteq> set (auto_disconnects s)
   \<or> (\<exists>j r x. ev = UploadSettles j r \<and> j < length (uploads s)
                \<and> settle_result cfg r (uploads s ! j) s = Inr x)"
proof (cases ev)
  case (Login c u pw)
  then show ?thesis by (simp add: auto_login)
next
  case (Stor c err p)
  then show ?thesis by (simp add: auto_on_connection auto_stor)
next
  case (UploadSettles j r)
  then show ?thesis using auto_upload_settles[of cfg j r s] by auto
next
  case (ConnectionClose c)
  then show ?thesis by (simp add: auto_on_connection auto_on_close)
next
  case (ConnectionError c)
  then show ?thesis by (simp add: auto_on_connection auto_on_close)
next
  case (ConnectionEnd c)
  then show ?thesis by (simp add: auto_on_connection auto_on_close)
next
  case (OtherCommand c)
  then show ?thesis by (simp add: auto_on_connection auto_resetIdleTimer)
next
  case (TimerFires t)
  then show ?thesis by (simp add: auto_timer_fires)
next
  case PeriodicCleanup
  then show ?thesis by simp
next
  case (LibrarySetsFlags c fl)
  then show ?thesis by simp
next
  case (LibraryWritesFile p)
  then show ?thesis by simp
qed

lemma auto_disconnect_fires:
  assumes "map_get t (timers s) = Some (d, AutoDisconnect u c)"
  shows "effects (timer_fires t s) =
           effects s @ (if map_has u (activeConnections s) then [Close c] else [])"
    and "activeConnections (timer_fires t s) = activeConnections s"
  using assms by (simp_all add: timer_fires_def)

lemmas handler_defs = eval_defs one_upload_def remote_ok_def remote_down_def stor_def
  resetIdleTimer_def clearTimeout_def on_connection_def upload_settles_def stor_settled_def
  uploadFile_def ensureDirectoryExists_def ensureDirectoryExists_try_def response_ok_def
  timer_fires_def on_close_def unlinkSync_def settle_result_def fresh_effects_def
  auto_disconnects_def

text \<open>
  Scheduling of the auto-disconnect. A step of the gateway adds an auto-disconnect
  timer only when it is the settling of a pending \<open>uploadFile\<close> that succeeded. When the
  upload of a STOR handler succeeds, the handler sets one timer with the delay
  \<open>AUTO_DISCONNECT_DELAY\<close> for the username and connection of its login, and closes
  nothing itself. When the upload fails, the handler sets no timer, leaves the registry
  as it is and closes nothing. When the timer fires, \<open>close\<close> is called on the
  connection of the login if the registry holds an entry under the username, whichever
  session that entry belongs to, and nothing is done if it holds none; the registry is
  left as it is.
\<close>

theorem auto_disconnect_scheduling:
  "(set (auto_disconnects (step cfg s ev)) \<subseteq> set (auto_disconnects s)
      \<or> (\<exists>j r x. ev = UploadSettles j r \<and> j < length (uploads s)
                   \<and> settle_result cfg r (uploads s ! j) s = Inr x))
   \<and> (\<forall>x. settle_result cfg r pu s = Inr x \<longrightarrow>
          timers (stor_settled cfg r pu s) =
            timers s @ [(nextTimer s, AUTO_DISCONNECT_DELAY cfg,
                         AutoDisconnect (lc_username (logins s ! pu_login pu))
                                        (lc_connection (logins s ! pu_login pu)))]
        \<and> activeConnections (stor_settled cfg r pu s) = activeConnections s
        \<and> (\<forall>c. Close c \<notin> set (fresh_effects s (stor_settled cfg r pu s))))
   \<and> (\<forall>err. settle_result cfg r pu s = Inl err \<longrightarrow>
          timers (stor_settled cfg r pu s) = timers s
        \<and> activeConnections (stor_settled cfg r pu s) = activeConnections s
        \<and> (\<forall>c. Close c \<notin> set (fresh_effects s (stor_settled cfg r pu s))))
   \<and> (\<forall>d u c. map_get t (timers s) = Some (d, AutoDisconnect u c) \<longrightarrow>
          fresh_effects s (timer_fires t s) =
            (if map_has u (activeConnections s) then [Close c] else [])
        \<and> activeConnections (timer_fires t s) = activeConnections s)"
proof (intro conjI allI impI)
  show "set (auto_disconnects (step cfg s ev)) \<subseteq> set (auto_disconnects s)
      \<or> (\<exists>j r x. ev = UploadSettles j r \<and> j < length (uploads s)
                   \<and> settle_result cfg r (uploads s ! j) s = Inr x)"
    by (rule auto_step)
next
  fix x assume a: "settle_result cfg r pu s = Inr x"
  show "timers (stor_settled cfg r pu s) =
            timers s @ [(nextTimer s, AUTO_DISCONNECT_DELAY cfg,
                         AutoDisconnect (lc_username (logins s ! pu_login pu))
                                        (lc_connection (logins s ! pu_login pu)))]"
    by (rule stor_settled_success(1)[OF a])
  show "activeConnections (stor_settled cfg r pu s) = activeConnections s" by simp
  fix c show "Close c \<notin> set (fresh_effects s (stor_settled cfg r pu s))"
    using stor_settled_success(3)[OF a] by blast
next
  fix err assume a: "settle_result cfg r pu s = Inl err"
  show "timers (stor_settled cfg r pu s) = timers s"
    by (rule stor_settled_failure(1)[OF a])
  show "activeConnections (stor_settled cfg r pu s) = activeConnections s" by simp
  fix c show "Close c \<notin> set (fresh_effects s (stor_settled cfg r pu s))"
    using stor_settled_failure(4)[OF a] by blast
next
  fix d u c assume a: "map_get t (timers s) = Some (d, AutoDisconnect u c)"
  show "fresh_effects s (timer_fires t s) =
            (if map_has u (activeConnections s) then [Close c] else [])"
    using auto_disconnect_fires(1)[OF a] by (simp add: fresh_effects_def)
  show "activeConnections (timer_fires t s) = activeConnections s"
    by (rule auto_disconnect_fires(2)[OF a])
qed

theorem auto_disconnect_scheduling_witness:
  "settle_result (scenario 2) remote_ok the_upload (run (scenario 2) one_upload)
     = Inr ''/Shared/alice/a.pdf''
   \<and> timers (stor_settled (scenario 2) remote_ok the_upload (run (scenario 2) one_upload))
     = [(1, 60000, IdleTimeout ''alice'' 1), (2, 10000, AutoDisconnect ''alice'' 1)]
   \<and> settle_result (scenario 2) remote_down the_upload (run (scenario 2) one_upload)
     = Inl ''timeout''
   \<and> timers (stor_settled (scenario 2) remote_down the_upload (run (scenario 2) one_upload))
     = [(1, 60000, IdleTimeout ''alice'' 1)]
   \<and> map_get 2 (timers (run (scenario 2)
         (one_upload @ [UploadSettles 0 remote_ok, ConnectionClose 1])))
     = Some (10000, AutoDisconnect ''alice'' 1)
   \<and> fresh_effects (run (scenario 2) (one_upload @ [UploadSettles 0 remote_ok, ConnectionClose 1]))
        (timer_fires 2 (run (scenario 2)
           (one_upload @ [UploadSettles 0 remote_ok, ConnectionClose 1]))) = []
   \<and> map_get 2 (timers (run (scenario 2) (one_upload @ [UploadSettles 0 remote_ok])))
     = Some (10000, AutoDisconnect ''alice'' 1)
   \<and> fresh_effects (run (scenario 2) (one_upload @ [UploadSettles 0 remote_ok]))
        (timer_fires 2 (run (scenario 2) (one_upload @ [UploadSettles 0 remote_ok]))) = [Close 1]"
proof -
  let ?s = "run (scenario 2) one_upload"
  let ?released = "run (scenario 2) (one_upload @ [UploadSettles 0 remote_ok, ConnectionClose 1])"
  let ?open = "run (scenario 2) (one_upload @ [UploadSettles 0 remote_ok])"
  have ok: "settle_result (scenario 2) remote_ok the_upload ?s = Inr ''/Shared/alice/a.pdf''"
    by (simp add: handler_defs the_upload_def)
  have down: "settle_result (scenario 2) remote_down the_upload ?s = Inl ''timeout''"
    by (simp add: handler_defs the_upload_def)
  have s: "timers ?s = [(1, 60000, IdleTimeout ''alice'' 1)]" "nextTimer ?s = 2"
    "logins ?s ! pu_login the_upload =
       \<lparr>lc_connection = 1, lc_username = ''alice'',
        lc_userInfo = \<lparr>password = ''s1'', email = ''alice@example.com'',
                        egnytePath = ''/Shared/alice''\<rparr>, lc_idleTimer = 1\<rparr>"
    "AUTO_DISCONNECT_DELAY (scenario 2) = 10000"
    by (simp_all add: handler_defs the_upload_def)
  have released: "map_get 2 (timers ?released) = Some (10000, AutoDisconnect ''alice'' 1)"
    "map_has ''alice'' (activeConnections ?released) = False"
    by (simp_all add: handler_defs)
  have opened: "map_get 2 (timers ?open) = Some (10000, AutoDisconnect ''alice'' 1)"
    "map_has ''alice'' (activeConnections ?open) = True"
    by (simp_all add: handler_defs)
  from auto_disconnect_scheduling
         [where cfg = "scenario 2" and s = ?s and r = remote_ok and pu = the_upload]
       auto_disconnect_scheduling
         [where cfg = "scenario 2" and s = ?s and r = remote_down and pu = the_upload]
       auto_disconnect_scheduling [where s = ?released and t = 2]
       auto_disconnect_scheduling [where s = ?open and t = 2]
  show ?thesis
    using ok down s released opened by simp
qed

subsection \<open>Sessions, handlers and timers share the username\<close>

text \<open>
  The registry is keyed by username, and so are the handlers and timers of a login:
  after a second login of \<open>alice\<close> has replaced the first, the \<open>close\<close> event of the first
  connection, or the idle timer of the first login, deletes the entry of the second.
\<close>

lemma replaced_session_handlers_share_username:
  "map ci_connection (map snd (activeConnections (run (scenario 2)
      [Login 1 ''alice'' ''s1'', Login 2 ''alice'' ''s1'']))) = [2]
   \<and> activeConnections (run (scenario 2)
      [Login 1 ''alice'' ''s1'', Login 2 ''alice'' ''s1'', ConnectionClose 1]) = []
   \<and> activeConnections (run (scenario 2)
      [Login 1 ''alice'' ''s1'', Login 2 ''alice'' ''s1'', TimerFires 0]) = []"
  by (simp add: handler_defs)

text \<open>The definitions a run with several sessions unfolds.\<close>

lemmas session_defs = handler_defs open_sessions_def is_stale_def

text \<open>
  Claim C2 fails in the code, with a maximum of two sessions, at the logins of \<open>alice\<close>
  on the connections 1, 2 and 3 when the idle timeout of the first login fires between
  the second and the third. The second login closes connection 1 and replaces its
  entry, but the idle timeout of the first login stays pending; when it fires it deletes
  the entry of \<open>alice\<close>, which is that of connection 2, and calls \<open>close\<close> on connection
  1 again. Connection 2 is then open and has no entry. The third login finds no entry
  of \<open>alice\<close>, is accepted and closes nothing: the sessions on the connections 2 and 3
  are both open for \<open>alice\<close>, and the registry knows only the one on connection 3.
\<close>

theorem stale_idle_timer_unregisters_successor:
  "effects (run (scenario 2) [Login 1 ''alice'' ''s1'', Login 2 ''alice'' ''s1'']) =
     [RegistrySet ''alice'' 1, TimerSet 0 60000 (IdleTimeout ''alice'' 1), Resolve 1,
      Close 1, RegistryDelete ''alice'', RegistrySet ''alice'' 2,
      TimerSet 1 60000 (IdleTimeout ''alice'' 2), Resolve 2]
   \<and> timers (run (scenario 2) [Login 1 ''alice'' ''s1'', Login 2 ''alice'' ''s1'']) =
       [(0, 60000, IdleTimeout ''alice'' 1), (1, 60000, IdleTimeout ''alice'' 2)]
   \<and> fresh_effects (run (scenario 2) [Login 1 ''alice'' ''s1'', Login 2 ''alice'' ''s1''])
        (run (scenario 2) stale_idle_timer) = [RegistryDelete ''alice'', Close 1]
   \<and> activeConnections (run (scenario 2) stale_idle_timer) = []
   \<and> open_sessions (run (scenario 2) stale_idle_timer) ''alice'' = [2]
   \<and> login_outcome (scenario 2) 3 ''alice'' ''s1'' (run (scenario 2) stale_idle_timer)
       = Some Accepted
   \<and> fresh_effects (run (scenario 2) stale_idle_timer)
        (run (scenario 2) (stale_idle_timer @ [Login 3 ''alice'' ''s1''])) =
       [RegistrySet ''alice'' 3, TimerSet 2 60000 (IdleTimeout ''alice'' 3), Resolve 3]
   \<and> open_sessions (run (scenario 2) (stale_idle_timer @ [Login 3 ''alice'' ''s1''])) ''alice''
       = [2, 3]
   \<and> map ci_connection (map snd (activeConnections
         (run (scenario 2) (stale_idle_timer @ [Login 3 ''alice'' ''s1''])))) = [3]"
  by (simp add: session_defs stale_idle_timer_def)

text \<open>
  Claim C7 fails in the code where the entry under the username is not that of the
  session that stored the file. First run: \<open>alice\<close> stores \<open>a.pdf\<close> on connection 1, the
  upload succeeds, connection 1 closes (its session is released: the library reports
  the connection closed and the \<open>close\<close> handler has deleted the entry), and \<open>alice\<close>
  logs in again on connection 2 within the grace delay. When the auto-disconnect
  timeout of the upload fires, the registry has an entry of \<open>alice\<close>, that of connection
  2, so \<open>close\<close> is called on connection 1: the closure of the released session is not
  suppressed. Second run: the login on connection 2 replaces that on connection 1 and
  stores \<open>a.pdf\<close>, the upload succeeds, and the idle timeout of the first login deletes
  the entry of \<open>alice\<close>. When the auto-disconnect timeout fires, the session on
  connection 2 is open, but the registry has no entry of \<open>alice\<close> and nothing is closed.
\<close>

theorem auto_disconnect_keyed_by_username:
  "map_get 2 (timers (run (scenario 2) relogin_after_release))
     = Some (10000, AutoDisconnect ''alice'' 1)
   \<and> map ci_connection (map snd (activeConnections (run (scenario 2) relogin_after_release))) = [2]
   \<and> open_sessions (run (scenario 2) relogin_after_release) ''alice'' = [2]
   \<and> fresh_effects (run (scenario 2) relogin_after_release)
        (run (scenario 2) (relogin_after_release @ [TimerFires 2])) = [Close 1]
   \<and> map_get 3 (timers (run (scenario 2) upload_of_successor))
       = Some (10000, AutoDisconnect ''alice'' 2)
   \<and> activeConnections (run (scenario 2) upload_of_successor) = []
   \<and> open_sessions (run (scenario 2) upload_of_successor) ''alice'' = [2]
   \<and> fresh_effects (run (scenario 2) upload_of_successor)
        (run (scenario 2) (upload_of_successor @ [TimerFires 3])) = []"
  by (simp add: session_defs relogin_after_release_def upload_of_successor_def)

subsection \<open>The Egnyte client\<close>

lemma ensure_requests:
  "\<exists>mid. snd (ensureDirectoryExists r d) = CheckDirectory (dropWhile (\<lambda>ch. ch = CHR ''/'') d) # mid
     \<and> (\<forall>q. UploadContent q \<notin> set mid)"
  by (auto simp: ensureDirectoryExists_def ensureDirectoryExists_try_def Let_def
      split: fetch_result.splits)

lemma ensure_warning:
  "fst (ensureDirectoryExists_try r d) = Inl e \<Longrightarrow>
   fst (ensureDirectoryExists r d) = None \<and>
   last (snd (ensureDirectoryExists r d)) = Warning (''Directory check/creation failed: '' @ e)"
  by (auto simp: ensureDirectoryExists_def split: prod.splits sum.splits)

text \<open>
  Claim C8. In every \<open>uploadFile\<close> that reaches the remote side (the local file
  exists), the directory check is the first request and the upload of the content the
  last one, sent whatever the directory check and creation answered; a failure of the
  directory step shows as a warning among the requests and nowhere else: the result of
  \<open>uploadFile\<close> is a function of the answer to the content upload alone, and it is the
  same for any other answers \<open>chk\<close>, \<open>crt\<close> to the directory requests.
\<close>

theorem uploadFile_directory_ensure_policy:
  "(\<exists>mid. snd (uploadFile dn r True lp dest) =
        CheckDirectory (dropWhile (\<lambda>ch. ch = CHR ''/'') (dn dest)) # mid @ [UploadContent dest]
      \<and> (\<forall>q. UploadContent q \<notin> set mid)
      \<and> (\<forall>e. fst (ensureDirectoryExists_try r (dn dest)) = Inl e \<longrightarrow>
             Warning (''Directory check/creation failed: '' @ e) \<in> set mid))
   \<and> fst (uploadFile dn r True lp dest) =
       (case uploadResponse r of
          FetchError e \<Rightarrow> Inl e
        | Response st \<Rightarrow> if response_ok st then Inr dest else Inl ''HTTP error'')
   \<and> fst (uploadFile dn (r\<lparr>checkResponse := chk, createResponse := crt\<rparr>) True lp dest) =
       fst (uploadFile dn r True lp dest)"
proof -
  obtain mid where mid: "snd (ensureDirectoryExists r (dn dest)) =
      CheckDirectory (dropWhile (\<lambda>ch. ch = CHR ''/'') (dn dest)) # mid"
    "\<forall>q. UploadContent q \<notin> set mid"
    using ensure_requests by blast
  have reqs: "snd (uploadFile dn r True lp dest) =
      snd (ensureDirectoryExists r (dn dest)) @ [UploadContent dest]"
    by (simp add: uploadFile_def split: prod.splits fetch_result.splits)
  have warn: "\<forall>e. fst (ensureDirectoryExists_try r (dn dest)) = Inl e \<longrightarrow>
             Warning (''Directory check/creation failed: '' @ e) \<in> set mid"
  proof (intro allI impI)
    fix e assume e: "fst (ensureDirectoryExists_try r (dn dest)) = Inl e"
    from ensure_warning[OF e] have "last (snd (ensureDirectoryExists r (dn dest))) =
       Warning (''Directory check/creation failed: '' @ e)" by simp
    with mid(1) show "Warning (''Directory check/creation failed: '' @ e) \<in> set mid"
      by (cases mid rule: rev_cases) (auto split: if_splits)
  qed
  have res: "\<And>r'. fst (uploadFile dn r' True lp dest) =
       (case uploadResponse r' of
          FetchError e \<Rightarrow> Inl e
        | Response st \<Rightarrow> if response_ok st then Inr dest else Inl ''HTTP error'')"
    by (simp add: uploadFile_def split: prod.splits fetch_result.splits)
  show ?thesis
    using mid reqs warn by (simp add: res)
qed

theorem uploadFile_directory_ensure_policy_witness:
  "fst (ensureDirectoryExists_try remote_dir_fails ''/Shared/alice'') = Inl ''Failed to check directory''
   \<and> uploadFile (\<lambda>p. ''/Shared/alice'') remote_dir_fails True ''scans/a.pdf'' ''/Shared/alice/a.pdf'' =
      (Inr ''/Shared/alice/a.pdf'',
       [CheckDirectory ''Shared/alice'',
        Warning ''Directory check/creation failed: Failed to check directory'',
        UploadContent ''/Shared/alice/a.pdf''])"
  using uploadFile_directory_ensure_policy
    [of "\<lambda>p. ''/Shared/alice''" remote_dir_fails "''scans/a.pdf''" "''/Shared/alice/a.pdf''"
        "Response 500" "FetchError ''unused''"]
  by (simp add: remote_dir_fails_def uploadFile_def ensureDirectoryExists_def
      ensureDirectoryExists_try_def response_ok_def)

section \<open>Properties of the upload queue\<close>

subsection \<open>The loop of the timer-driven gateway\<close>

lemma coordinator_fields [simp]:
  "uploadQueue (journal_add es st) = uploadQueue st"
  "staged (journal_add es st) = staged st"
  "journal (journal_add es st) = journal st @ es"
  "uploadQueue (push xs st) = uploadQueue st @ xs"
  "staged (push xs st) = staged st"
  "journal (push xs st) = journal st"
  by (simp_all add: journal_add_def push_def)

lemma dispatched_append: "dispatched (xs @ ys) = dispatched xs @ dispatched ys"
  by (induction xs rule: dispatched.induct) simp_all

lemma pacing_append: "pacing (xs @ ys) = pacing xs @ pacing ys"
  by (induction xs rule: pacing.induct) simp_all

lemma successes_append: "successes (xs @ ys) = successes xs + successes ys"
  by (induction xs rule: successes.induct) simp_all

lemma failures_append: "failures (xs @ ys) = failures xs + failures ys"
  by (induction xs rule: failures.induct) simp_all

text \<open>
  What one pass of the loop adds to the journal: one dispatch followed by its result.
\<close>

lemma process_item_journal:
  "\<exists>res. journal (fst (process_item e item (st, s, f))) = journal st @ Dispatch item # res
     \<and> dispatched res = [] \<and> pacing res = []
     \<and> fst (snd (process_item e item (st, s, f))) = s + successes res
     \<and> snd (snd (process_item e item (st, s, f))) = f + failures res
     \<and> successes res + failures res = 1"
  by (cases "sp_outcome e"; cases "unlinkSync (pt_localPath item) (staged st)")
     (simp_all add: process_item_def Let_def)

lemma process_item_queue:
  "uploadQueue (fst (process_item e item (st, s, f))) = uploadQueue st @ sp_during_upload e"
  by (cases "sp_outcome e"; cases "unlinkSync (pt_localPath item) (staged st)")
     (simp_all add: process_item_def Let_def)

lemma process_item_staged:
  "staged (fst (process_item e item (st, s, f))) =
     (if sp_outcome e = Uploaded then staged st - {pt_localPath item} else staged st)"
  by (cases "sp_outcome e"; cases "pt_localPath item \<in> staged st")
     (simp_all add: process_item_def Let_def unlinkSync_def)

lemma paced_Cons: "paced d (item # rest) = Dispatch item # (if rest = [] then [] else Wait d # paced d rest)"
  by (cases rest) simp_all

lemma arrivals_Suc:
  "arrivals_from env n i (Suc k) =
     sp_during_upload (env i) @ (if i < n - 1 then sp_during_delay (env i) else []) @
     arrivals_from env n (Suc i) k"
proof -
  have "[i ..< i + Suc k] = i # [Suc i ..< Suc i + k]"
    by (simp add: upt_conv_Cons)
  then show ?thesis by (simp add: arrivals_from_def)
qed

lemma uploaded_paths_Cons:
  "uploaded_paths env i (item # rest) =
     (if sp_outcome (env i) = Uploaded then {pt_localPath item} else {}) \<union>
     uploaded_paths env (Suc i) rest"
proof -
  have "[i ..< Suc (i + length rest)] = i # [Suc i ..< Suc (i + length rest)]"
    by (rule upt_conv_Cons) simp
  then show ?thesis by (simp add: uploaded_paths_def)
qed

lemma process_loop_spec:
  "i + length items = n \<Longrightarrow>
   \<exists>new. journal (fst (process_loop d env n i items (st, s, f))) = journal st @ new
     \<and> dispatched new = items
     \<and> pacing new = paced d items
     \<and> fst (snd (process_loop d env n i items (st, s, f))) = s + successes new
     \<and> snd (snd (process_loop d env n i items (st, s, f))) = f + failures new
     \<and> successes new + failures new = length items
     \<and> uploadQueue (fst (process_loop d env n i items (st, s, f))) =
         uploadQueue st @ arrivals_from env n i (length items)"
proof (induction items arbitrary: i st s f)
  case Nil
  show ?case by (simp add: arrivals_from_def)
next
  case (Cons item rest)
  obtain st1 s1 f1 where p: "process_item (env i) item (st, s, f) = (st1, s1, f1)"
    by (cases "process_item (env i) item (st, s, f)")
  from process_item_journal[of "env i" item st s f] p
  obtain res where res: "journal st1 = journal st @ Dispatch item # res"
    "dispatched res = []" "pacing res = []" "s1 = s + successes res" "f1 = f + failures res"
    "successes res + failures res = 1"
    by auto
  from process_item_queue[of "env i" item st s f] p
  have q1: "uploadQueue st1 = uploadQueue st @ sp_during_upload (env i)" by simp
  have last: "(i < n - 1) = (rest \<noteq> [])" using Cons.prems by (cases rest) auto
  let ?st2 = "if i < n - 1 then push (sp_during_delay (env i)) (journal_add [Wait d] st1) else st1"
  have step: "process_loop d env n i (item # rest) (st, s, f) =
      process_loop d env n (Suc i) rest (?st2, s1, f1)"
    by (simp add: p)
  have "Suc i + length rest = n" using Cons.prems by simp
  from Cons.IH[OF this, of ?st2 s1 f1]
  obtain new where new: "journal (fst (process_loop d env n (Suc i) rest (?st2, s1, f1))) = journal ?st2 @ new"
    "dispatched new = rest" "pacing new = paced d rest"
    "fst (snd (process_loop d env n (Suc i) rest (?st2, s1, f1))) = s1 + successes new"
    "snd (snd (process_loop d env n (Suc i) rest (?st2, s1, f1))) = f1 + failures new"
    "successes new + failures new = length rest"
    "uploadQueue (fst (process_loop d env n (Suc i) rest (?st2, s1, f1))) =
         uploadQueue ?st2 @ arrivals_from env n (Suc i) (length rest)"
    by blast
  let ?new = "Dispatch item # res @ (if i < n - 1 then [Wait d] else []) @ new"
  have j: "journal (fst (process_loop d env n i (item # rest) (st, s, f))) = journal st @ ?new"
    unfolding step new(1) by (simp add: res(1))
  have "dispatched ?new = item # rest"
    by (simp add: dispatched_append res(2) new(2))
  moreover have "pacing ?new = paced d (item # rest)"
    using last by (cases rest) (simp_all add: pacing_append res(3) new(3))
  moreover have "fst (snd (process_loop d env n i (item # rest) (st, s, f))) = s + successes ?new"
    unfolding step new(4) by (simp add: successes_append res(4))
  moreover have "snd (snd (process_loop d env n i (item # rest) (st, s, f))) = f + failures ?new"
    unfolding step new(5) by (simp add: failures_append res(5))
  moreover have "successes ?new + failures ?new = length (item # rest)"
    using res(6) new(6) by (simp add: successes_append failures_append)
  moreover have "uploadQueue (fst (process_loop d env n i (item # rest) (st, s, f))) =
         uploadQueue st @ arrivals_from env n i (length (item # rest))"
    unfolding step new(7) by (simp add: q1 arrivals_Suc)
  ultimately show ?case using j by blast
qed

lemma process_loop_staged:
  "staged (fst (process_loop d env n i items (st, s, f))) = staged st - uploaded_paths env i items"
proof (induction items arbitrary: i st s f)
  case Nil
  show ?case by (simp add: uploaded_paths_def)
next
  case (Cons item rest)
  obtain st1 s1 f1 where p: "process_item (env i) item (st, s, f) = (st1, s1, f1)"
    by (cases "process_item (env i) item (st, s, f)")
  from process_item_staged[of "env i" item st s f] p
  have st1: "staged st1 =
     (if sp_outcome (env i) = Uploaded then staged st - {pt_localPath item} else staged st)"
    by simp
  let ?st2 = "if i < n - 1 then push (sp_during_delay (env i)) (journal_add [Wait d] st1) else st1"
  have step: "process_loop d env n i (item # rest) (st, s, f) =
      process_loop d env n (Suc i) rest (?st2, s1, f1)"
    by (simp add: p)
  have "staged ?st2 = staged st1" by simp
  then show ?case
    unfolding step Cons.IH uploaded_paths_Cons st1 by auto
qed

text \<open>The counters of the loop count the relayed items and the others.\<close>

lemma process_item_counts:
  "snd (process_item e item (st, s, f)) =
     (if sp_outcome e = Uploaded \<and> pt_localPath item \<in> staged st then (s + 1, f) else (s, f + 1))"
  by (cases "sp_outcome e"; cases "pt_localPath item \<in> staged st")
     (simp_all add: process_item_def Let_def unlinkSync_def push_def journal_add_def)

lemma filter_upt_Suc:
  "filter P [0 ..< Suc m] = (if P 0 then [0] else []) @ map Suc (filter (\<lambda>j. P (Suc j)) [0 ..< m])"
proof -
  have "[0 ..< Suc m] = 0 # map Suc [0 ..< m]"
    by (simp add: upt_conv_Cons map_Suc_upt del: upt_Suc)
  then show ?thesis by (simp add: filter_map comp_def del: upt_Suc)
qed

lemma process_loop_counts:
  "snd (process_loop d env n i items (st, s, f)) =
     (s + length (filter (\<lambda>j. sp_outcome (env (i + j)) = Uploaded
                            \<and> pt_localPath (items ! j) \<in> staged st - uploaded_paths env i (take j items))
                    [0 ..< length items]),
      f + length (filter (\<lambda>j. \<not> (sp_outcome (env (i + j)) = Uploaded
                            \<and> pt_localPath (items ! j) \<in> staged st - uploaded_paths env i (take j items)))
                    [0 ..< length items]))"
proof (induction items arbitrary: i st s f)
  case Nil
  show ?case by simp
next
  case (Cons item rest)
  obtain st1 s1 f1 where p: "process_item (env i) item (st, s, f) = (st1, s1, f1)"
    by (cases "process_item (env i) item (st, s, f)")
  from process_item_staged[of "env i" item st s f] p
  have st1: "staged st1 =
     (if sp_outcome (env i) = Uploaded then staged st - {pt_localPath item} else staged st)"
    by simp
  from process_item_counts[of "env i" item st s f] p
  have c1: "(s1, f1) = (if sp_outcome (env i) = Uploaded \<and> pt_localPath item \<in> staged st
                        then (s + 1, f) else (s, f + 1))"
    by simp
  let ?st2 = "if i < n - 1 then push (sp_during_delay (env i)) (journal_add [Wait d] st1) else st1"
  have step: "process_loop d env n i (item # rest) (st, s, f) =
      process_loop d env n (Suc i) rest (?st2, s1, f1)"
    by (simp add: p)
  have st2: "staged ?st2 = staged st1" by simp
  have paths: "staged st1 - uploaded_paths env (Suc i) xs =
      staged st - uploaded_paths env i (item # xs)" for xs
    unfolding st1 uploaded_paths_Cons by auto
  have up0: "uploaded_paths env i [] = {}" by (simp add: uploaded_paths_def)
  show ?case
    unfolding step Cons.IH st2 paths
    using c1
    by (cases "sp_outcome (env i) = Uploaded \<and> pt_localPath item \<in> staged st")
       (auto simp add: filter_upt_Suc up0 simp del: upt_Suc)
qed

lemma processUploadQueue_counts:
  assumes "uploadQueue st \<noteq> []"
  shows "last (journal (processUploadQueue d env st)) =
     BatchComplete
       (length (filter (relayed env (staged st) (uploadQueue st)) [0 ..< length (uploadQueue st)]))
       (length (filter (\<lambda>j. \<not> relayed env (staged st) (uploadQueue st) j)
                  [0 ..< length (uploadQueue st)]))"
proof -
  let ?st0 = "st\<lparr>uploadQueue := []\<rparr>"
  let ?n = "length (uploadQueue st)"
  obtain st' s' f' where r: "process_loop d env ?n 0 (uploadQueue st) (?st0, 0, 0) = (st', s', f')"
    by (cases "process_loop d env ?n 0 (uploadQueue st) (?st0, 0, 0)")
  from process_loop_counts[of d env ?n 0 "uploadQueue st" ?st0 0 0] r
  have c: "s' = length (filter (relayed env (staged st) (uploadQueue st)) [0 ..< ?n])"
    "f' = length (filter (\<lambda>j. \<not> relayed env (staged st) (uploadQueue st) j) [0 ..< ?n])"
    by (simp_all add: relayed_def[abs_def])
  have "processUploadQueue d env st = journal_add [BatchComplete s' f'] st'"
    using assms r by (simp add: processUploadQueue_def Let_def)
  then show ?thesis using c by (simp add: journal_add_def)
qed

text \<open>
  When the local paths of the snapshot differ and all are staged, an item is relayed
  exactly when its upload succeeds.
\<close>

lemma uploaded_paths_subset: "uploaded_paths env i items \<subseteq> pt_localPath ` set items"
  unfolding uploaded_paths_def by (auto dest: set_zip_leftD)

lemma relayed_staged:
  assumes "distinct (map pt_localPath items)" "pt_localPath ` set items \<subseteq> fs" "j < length items"
  shows "relayed env fs items j = (sp_outcome (env j) = Uploaded)"
proof -
  have "pt_localPath (items ! j) \<in> fs" using assms(2,3) by auto
  moreover have "pt_localPath (items ! j) \<notin> pt_localPath ` set (take j items)"
  proof
    assume "pt_localPath (items ! j) \<in> pt_localPath ` set (take j items)"
    then obtain x where x: "x \<in> set (take j items)" "pt_localPath x = pt_localPath (items ! j)" by auto
    then obtain k where k: "k < j" "k < length items" "items ! k = x"
      by (auto simp: in_set_conv_nth)
    have d: "\<forall>a<length items. \<forall>b<length items.
               a \<noteq> b \<longrightarrow> pt_localPath (items ! a) \<noteq> pt_localPath (items ! b)"
      using assms(1) by (simp add: distinct_conv_nth)
    have "k \<noteq> j" using k(1) by simp
    with d k x(2) assms(3) show False by blast
  qed
  ultimately show ?thesis
    using uploaded_paths_subset[of env 0 "take j items"] by (auto simp: relayed_def)
qed

lemma relayed_counts:
  assumes "distinct (map pt_localPath items)" "pt_localPath ` set items \<subseteq> fs"
  shows "filter (relayed env fs items) [0 ..< length items] =
           filter (\<lambda>j. sp_outcome (env j) = Uploaded) [0 ..< length items]"
    and "filter (\<lambda>j. \<not> relayed env fs items j) [0 ..< length items] =
           filter (\<lambda>j. sp_outcome (env j) \<noteq> Uploaded) [0 ..< length items]"
  using relayed_staged[OF assms] by (auto intro: filter_cong)

lemma processUploadQueue_spec:
  assumes "uploadQueue st \<noteq> []"
  shows "\<exists>new. journal (processUploadQueue d env st) =
            journal st @ new @ [BatchComplete (successes new) (failures new)]
     \<and> dispatched new = uploadQueue st
     \<and> pacing new = paced d (uploadQueue st)
     \<and> successes new + failures new = length (uploadQueue st)
     \<and> uploadQueue (processUploadQueue d env st) = arrivals env (length (uploadQueue st))"
proof -
  let ?st0 = "st\<lparr>uploadQueue := []\<rparr>"
  let ?n = "length (uploadQueue st)"
  obtain st' s' f' where r: "process_loop d env ?n 0 (uploadQueue st) (?st0, 0, 0) = (st', s', f')"
    by (cases "process_loop d env ?n 0 (uploadQueue st) (?st0, 0, 0)")
  from process_loop_spec[of 0 "uploadQueue st" ?n d env ?st0 0 0] r
  obtain new where new: "journal st' = journal st @ new" "dispatched new = uploadQueue st"
    "pacing new = paced d (uploadQueue st)" "s' = successes new" "f' = failures new"
    "successes new + failures new = ?n"
    "uploadQueue st' = arrivals_from env ?n 0 ?n"
    by auto
  have "processUploadQueue d env st = journal_add [BatchComplete s' f'] st'"
    using assms r by (simp add: processUploadQueue_def Let_def)
  then show ?thesis using new by (auto simp: arrivals_def)
qed

lemma processUploadQueue_staged:
  "staged (processUploadQueue d env st) = staged st - uploaded_paths env 0 (uploadQueue st)"
proof (cases "uploadQueue st = []")
  case True
  then show ?thesis by (simp add: processUploadQueue_def uploaded_paths_def)
next
  case False
  obtain st' s' f' where r: "process_loop d env (length (uploadQueue st)) 0 (uploadQueue st)
      (st\<lparr>uploadQueue := []\<rparr>, 0, 0) = (st', s', f')"
    by (cases "process_loop d env (length (uploadQueue st)) 0 (uploadQueue st)
      (st\<lparr>uploadQueue := []\<rparr>, 0, 0)")
  from process_loop_staged[of d env "length (uploadQueue st)" 0 "uploadQueue st"
      "st\<lparr>uploadQueue := []\<rparr>" 0 0] r
  have "staged st' = staged st - uploaded_paths env 0 (uploadQueue st)" by simp
  then show ?thesis using False r by (simp add: processUploadQueue_def Let_def)
qed

lemma processUploadQueue_fresh:
  assumes "uploadQueue st \<noteq> []"
  shows "\<exists>new. fresh_journal st (processUploadQueue d env st) =
            new @ [BatchComplete (successes new) (failures new)]
     \<and> dispatched new = uploadQueue st
     \<and> pacing new = paced d (uploadQueue st)
     \<and> successes new + failures new = length (uploadQueue st)"
  using processUploadQueue_spec[OF assms, of d env]
  by (auto simp: fresh_journal_def)

lemma processUploadQueue_report:
  assumes "uploadQueue st \<noteq> []"
  shows "\<exists>new. fresh_journal st (processUploadQueue d env st) =
            new @ [BatchComplete (successes new) (failures new)]
     \<and> successes new + failures new = length (uploadQueue st)
     \<and> successes new =
         length (filter (relayed env (staged st) (uploadQueue st)) [0 ..< length (uploadQueue st)])
     \<and> failures new =
         length (filter (\<lambda>j. \<not> relayed env (staged st) (uploadQueue st) j)
                   [0 ..< length (uploadQueue st)])"
proof -
  from processUploadQueue_spec[OF assms, of d env]
  obtain new where new: "journal (processUploadQueue d env st) =
            journal st @ new @ [BatchComplete (successes new) (failures new)]"
    "successes new + failures new = length (uploadQueue st)"
    by blast
  from new(1) have "last (journal (processUploadQueue d env st)) =
      BatchComplete (successes new) (failures new)"
    by simp
  with processUploadQueue_counts[OF assms, of d env]
  have "successes new =
         length (filter (relayed env (staged st) (uploadQueue st)) [0 ..< length (uploadQueue st)])"
    "failures new =
         length (filter (\<lambda>j. \<not> relayed env (staged st) (uploadQueue st) j)
                   [0 ..< length (uploadQueue st)])"
    by simp_all
  moreover from new(1) have "fresh_journal st (processUploadQueue d env st) =
            new @ [BatchComplete (successes new) (failures new)]"
    by (simp add: fresh_journal_def)
  ultimately show ?thesis using new(2) by blast
qed

lemma processUploadQueue_report_outcomes:
  assumes "uploadQueue st \<noteq> []" "distinct (map pt_localPath (uploadQueue st))"
    "pt_localPath ` set (uploadQueue st) \<subseteq> staged st"
  shows "last (journal (processUploadQueue d env st)) =
     BatchComplete
       (length (filter (\<lambda>j. sp_outcome (env j) = Uploaded) [0 ..< length (uploadQueue st)]))
       (length (filter (\<lambda>j. sp_outcome (env j) \<noteq> Uploaded) [0 ..< length (uploadQueue st)]))"
  using processUploadQueue_counts[OF assms(1), of d env] relayed_counts[OF assms(2,3), of env]
  by simp

lemma processUploadQueue_dispatched:
  "dispatched (fresh_journal st (processUploadQueue d env st)) = uploadQueue st"
proof (cases "uploadQueue st = []")
  case True
  then show ?thesis by (simp add: processUploadQueue_def fresh_journal_def)
next
  case False
  from processUploadQueue_fresh[OF False, of d env]
  show ?thesis by (auto simp: dispatched_append)
qed

lemma processUploadQueue_pacing:
  "pacing (fresh_journal st (processUploadQueue d env st)) = paced d (uploadQueue st)"
proof (cases "uploadQueue st = []")
  case True
  then show ?thesis by (simp add: processUploadQueue_def fresh_journal_def)
next
  case False
  from processUploadQueue_fresh[OF False, of d env]
  show ?thesis by (auto simp: pacing_append)
qed

lemma processUploadQueue_queue:
  "uploadQueue (processUploadQueue d env st) =
     arrivals env (length (uploadQueue st))"
proof (cases "uploadQueue st = []")
  case True
  then show ?thesis by (simp add: processUploadQueue_def arrivals_def arrivals_from_def)
next
  case False
  from processUploadQueue_spec[OF False, of d env]
  show ?thesis by auto
qed

subsection \<open>The loop of the backup gateway\<close>

lemma indexOf_bounds: "- 1 \<le> indexOf y q"
  by (induction q) (auto simp: Let_def)

lemma splice1_keeps:
  "x \<in> set q \<Longrightarrow> x \<noteq> y \<Longrightarrow> indexOf y q > - 1 \<Longrightarrow> x \<in> set (splice1 (nat (indexOf y q)) q)"
proof (induction q)
  case Nil
  then show ?case by simp
next
  case (Cons z zs)
  show ?case
  proof (cases "y = z")
    case True
    then show ?thesis using Cons.prems by (auto simp: splice1_def)
  next
    case False
    then have j: "indexOf y zs > - 1" and ix: "indexOf y (z # zs) = indexOf y zs + 1"
      using Cons.prems(3) by (auto simp: Let_def split: if_splits)
    have n: "nat (indexOf y zs + 1) = Suc (nat (indexOf y zs))" using j by simp
    have sp: "splice1 (nat (indexOf y (z # zs))) (z # zs) = z # splice1 (nat (indexOf y zs)) zs"
      unfolding ix n by (simp add: splice1_def)
    show ?thesis
    proof (cases "x = z")
      case True
      then show ?thesis unfolding sp by simp
    next
      case False
      then have "x \<in> set zs" using Cons.prems(1) by simp
      from Cons.IH[OF this Cons.prems(2) j]
      show ?thesis unfolding sp by simp
    qed
  qed
qed

lemma processUploads_item_keeps:
  assumes "x \<in> set (uploadQueue st)" and "item = x \<longrightarrow> sp_outcome e \<noteq> Uploaded"
  shows "x \<in> set (uploadQueue (fst (processUploads_item d e item (st, s, f))))"
proof (cases "sp_outcome e")
  case (UploadError m)
  then show ?thesis using assms(1) by (simp add: processUploads_item_def Let_def)
next
  case Uploaded
  then have ne: "x \<noteq> item" using assms(2) by auto
  show ?thesis
  proof (cases "unlinkSync (pt_localPath item) (staged st)")
    case (Inl err)
    then show ?thesis using Uploaded assms(1) by (simp add: processUploads_item_def Let_def)
  next
    case (Inr fs)
    let ?q = "uploadQueue st @ sp_during_upload e"
    have x: "x \<in> set ?q" using assms(1) by simp
    have "x \<in> set (if indexOf item ?q > - 1 then splice1 (nat (indexOf item ?q)) ?q else ?q)"
      using splice1_keeps[OF x ne] x by simp
    then show ?thesis using Uploaded Inr
      by (auto simp: processUploads_item_def Let_def)
  qed
qed

lemma processUploads_loop_keeps:
  assumes "x \<in> set (uploadQueue st)"
    and "\<forall>j < length items. items ! j = x \<longrightarrow> sp_outcome (env (i + j)) \<noteq> Uploaded"
  shows "x \<in> set (uploadQueue (fst (processUploads_loop d env i items (st, s, f))))"
  using assms
proof (induction items arbitrary: i st s f)
  case Nil
  then show ?case by simp
next
  case (Cons item rest)
  obtain st1 s1 f1 where p: "processUploads_item d (env i) item (st, s, f) = (st1, s1, f1)"
    by (cases "processUploads_item d (env i) item (st, s, f)")
  have "item = x \<longrightarrow> sp_outcome (env i) \<noteq> Uploaded"
    using Cons.prems(2)[rule_format, of 0] by simp
  from processUploads_item_keeps[OF Cons.prems(1) this, of d s f] p
  have x1: "x \<in> set (uploadQueue st1)" by simp
  have rest: "\<forall>j < length rest. rest ! j = x \<longrightarrow> sp_outcome (env (Suc i + j)) \<noteq> Uploaded"
    using Cons.prems(2) by (metis Suc_less_eq add_Suc_shift length_Cons nth_Cons_Suc)
  from Cons.IH[OF x1 rest, of s1 f1]
  show ?case by (simp add: p)
qed

lemma processUploads_item_journal:
  "\<exists>res. journal (fst (processUploads_item d e item (st, s, f))) = journal st @ Dispatch item # res
     \<and> dispatched res = []"
  by (cases "sp_outcome e"; cases "unlinkSync (pt_localPath item) (staged st)")
     (simp_all add: processUploads_item_def Let_def)

lemma processUploads_loop_journal:
  "\<exists>new. journal (fst (processUploads_loop d env i items (st, s, f))) = journal st @ new
     \<and> dispatched new = items"
proof (induction items arbitrary: i st s f)
  case Nil
  show ?case by simp
next
  case (Cons item rest)
  obtain st1 s1 f1 where p: "processUploads_item d (env i) item (st, s, f) = (st1, s1, f1)"
    by (cases "processUploads_item d (env i) item (st, s, f)")
  from processUploads_item_journal[of d "env i" item st s f] p
  obtain res where res: "journal st1 = journal st @ Dispatch item # res" "dispatched res = []"
    by auto
  from Cons.IH[of "Suc i" st1 s1 f1]
  obtain new where new: "journal (fst (processUploads_loop d env (Suc i) rest (st1, s1, f1))) =
      journal st1 @ new" "dispatched new = rest"
    by blast
  have "journal (fst (processUploads_loop d env i (item # rest) (st, s, f))) =
      journal st @ (Dispatch item # res @ new)"
    by (simp add: p new(1) res(1))
  moreover have "dispatched (Dispatch item # res @ new) = item # rest"
    by (simp add: dispatched_append res(2) new(2))
  ultimately show ?case by blast
qed

lemma processUploads_dispatched:
  "dispatched (fresh_journal st (processUploads d env st)) = uploadQueue st"
proof (cases "uploadQueue st = []")
  case True
  then show ?thesis by (simp add: processUploads_def fresh_journal_def)
next
  case False
  obtain st' s' f' where r: "processUploads_loop d env 0 (uploadQueue st) (st, 0, 0) = (st', s', f')"
    by (cases "processUploads_loop d env 0 (uploadQueue st) (st, 0, 0)")
  from processUploads_loop_journal[of d env 0 "uploadQueue st" st 0 0] r
  obtain new where "journal st' = journal st @ new" "dispatched new = uploadQueue st"
    by auto
  then show ?thesis using False r
    by (simp add: processUploads_def fresh_journal_def dispatched_append)
qed

lemma processUploads_keeps_failed:
  assumes "x \<in> set (uploadQueue st)"
    and "\<forall>j < length (uploadQueue st). uploadQueue st ! j = x \<longrightarrow> sp_outcome (env j) \<noteq> Uploaded"
  shows "x \<in> set (uploadQueue (processUploads d env st))"
proof -
  have ne: "uploadQueue st \<noteq> []" using assms(1) by auto
  obtain st' s' f' where r: "processUploads_loop d env 0 (uploadQueue st) (st, 0, 0) = (st', s', f')"
    by (cases "processUploads_loop d env 0 (uploadQueue st) (st, 0, 0)")
  from processUploads_loop_keeps[OF assms(1), of "uploadQueue st" env 0 d 0 0] assms(2) r
  have "x \<in> set (uploadQueue st')" by simp
  then show ?thesis using ne r by (simp add: processUploads_def)
qed

subsection \<open>Concrete drains\<close>

text \<open>The definitions a concrete drain unfolds.\<close>

lemmas drain_defs = transfer_def quiet_def first_fails_def two_staged_def
  processUploadQueue_def process_item_def journal_add_def push_def unlinkSync_def Let_def
  fresh_journal_def

lemmas backup_defs = drain_defs processUploads_def processUploads_item_def splice1_def

lemmas arrival_defs = drain_defs arrival_during_first_def arrivals_def arrivals_from_def

lemmas batch_defs = drain_defs three_staged_def middle_fails_def

subsection \<open>Snapshot and arrivals\<close>

text \<open>
  Claim C3, as stated, fails on the ftpd gateway, at the queue \<open>a.pdf\<close>, \<open>b.pdf\<close> when
  \<open>c.pdf\<close> is pushed while \<open>a.pdf\<close> is uploaded: the drain iterates the live queue, so
  \<open>c.pdf\<close>, which was not in the queue when the drain started, is attempted by that same
  drain; the queue is cleared at the end of the drain, so no later drain attempts it.
\<close>

theorem ftpd_drain_attempts_arrival:
  "map_option (\<lambda>st. dispatched (journal st))
      (processUploadQueue_ftpd (Suc (Suc (Suc (Suc 0)))) 3000 arrival_during_first two_staged)
     = Some [transfer 0 ''a.pdf'', transfer 1 ''b.pdf'', transfer 2 ''c.pdf'']
   \<and> transfer 2 ''c.pdf'' \<notin> set (uploadQueue two_staged)
   \<and> map_option uploadQueue (processUploadQueue_ftpd (Suc (Suc (Suc (Suc 0)))) 3000 arrival_during_first two_staged)
     = Some []"
  by (simp add: arrival_defs processUploadQueue_ftpd_def)

text \<open>
  Claim C3, amended to the timer-driven gateway. For every queue and every
  environment, a drain dispatches exactly the transfers that were in the queue when it
  started, each once and in order; the queue after the drain holds exactly what arrived
  during it, in order of arrival; such an arrival, unless it was also in the snapshot,
  is not dispatched by this drain; and the next drain dispatches exactly those arrivals
  followed by what was pushed in between.
\<close>

theorem drain_snapshot_exactly_once:
  "dispatched (fresh_journal st (processUploadQueue d env st)) = uploadQueue st
   \<and> uploadQueue (processUploadQueue d env st) =
       arrivals env (length (uploadQueue st))
   \<and> (\<forall>x \<in> set (arrivals env (length (uploadQueue st))).
         x \<notin> set (uploadQueue st) \<longrightarrow>
         x \<notin> set (dispatched (fresh_journal st (processUploadQueue d env st))))
   \<and> dispatched (fresh_journal (push later (processUploadQueue d env st))
         (processUploadQueue d env' (push later (processUploadQueue d env st)))) =
       arrivals env (length (uploadQueue st)) @ later"
  by (simp add: processUploadQueue_dispatched processUploadQueue_queue)

theorem drain_snapshot_exactly_once_witness:
  "dispatched (fresh_journal two_staged (processUploadQueue 3000 arrival_during_first two_staged))
     = [transfer 0 ''a.pdf'', transfer 1 ''b.pdf'']
   \<and> uploadQueue (processUploadQueue 3000 arrival_during_first two_staged) = [transfer 2 ''c.pdf'']
   \<and> transfer 2 ''c.pdf'' \<notin> set (uploadQueue two_staged)
   \<and> transfer 2 ''c.pdf'' \<notin> set (dispatched (fresh_journal two_staged
          (processUploadQueue 3000 arrival_during_first two_staged)))
   \<and> dispatched (fresh_journal (push [] (processUploadQueue 3000 arrival_during_first two_staged))
         (processUploadQueue 3000 (\<lambda>i. quiet Uploaded)
            (push [] (processUploadQueue 3000 arrival_during_first two_staged))))
       = [transfer 2 ''c.pdf'']"
proof -
  have a: "arrivals arrival_during_first (length (uploadQueue two_staged)) = [transfer 2 ''c.pdf'']"
    by (simp add: arrival_defs upt_rec)
  have q: "uploadQueue two_staged = [transfer 0 ''a.pdf'', transfer 1 ''b.pdf'']"
    by (simp add: two_staged_def)
  have n: "transfer 2 ''c.pdf'' \<notin> set (uploadQueue two_staged)"
    by (simp add: q transfer_def)
  from drain_snapshot_exactly_once[where st = two_staged and d = 3000
      and env = arrival_during_first and later = "[]" and env' = "\<lambda>i. quiet Uploaded"]
  show ?thesis unfolding a using n by (simp add: q)
qed

subsection \<open>Failures within a batch\<close>

text \<open>
  Claim C4. In the timer-driven gateway, a pass of the loop whose upload fails leaves
  the staging directory as it is and counts one failure; one whose upload succeeds
  leaves the staging directory without the local file of the item, and counts one
  success if the file was there to be unlinked and one failure if it was not. After a
  drain the staging directory has lost exactly the local files of the items whose upload
  succeeded. The drain dispatches every item of the snapshot whatever the outcomes, and
  its last journal entry reports the number of relayed items as successes and the
  number of the other items as failures; the two add up to the size of the snapshot.
  When the local paths of the snapshot differ and all are staged, the report is the
  number of items whose upload succeeded and the number of items whose upload failed.
  In the production gateway v31, the STOR handler leaves the staging directory as it is
  when the upload failed and without the local file when it succeeded.
\<close>

theorem failed_upload_keeps_local_file:
  "staged (fst (process_item e item (st, ok, bad))) =
     (if sp_outcome e = Uploaded then staged st - {pt_localPath item} else staged st)
   \<and> snd (process_item e item (st, ok, bad)) =
       (if sp_outcome e = Uploaded \<and> pt_localPath item \<in> staged st
        then (ok + 1, bad) else (ok, bad + 1))
   \<and> staged (processUploadQueue d env st) = staged st - uploaded_paths env 0 (uploadQueue st)
   \<and> dispatched (fresh_journal st (processUploadQueue d env st)) = uploadQueue st
   \<and> (uploadQueue st \<noteq> [] \<longrightarrow>
        (\<exists>new. fresh_journal st (processUploadQueue d env st) =
                  new @ [BatchComplete (successes new) (failures new)]
              \<and> successes new + failures new = length (uploadQueue st)
              \<and> successes new =
                  length (filter (relayed env (staged st) (uploadQueue st))
                            [0 ..< length (uploadQueue st)])
              \<and> failures new =
                  length (filter (\<lambda>j. \<not> relayed env (staged st) (uploadQueue st) j)
                            [0 ..< length (uploadQueue st)])))
   \<and> (uploadQueue st \<noteq> [] \<and> distinct (map pt_localPath (uploadQueue st))
        \<and> pt_localPath ` set (uploadQueue st) \<subseteq> staged st \<longrightarrow>
        last (journal (processUploadQueue d env st)) =
          BatchComplete
            (length (filter (\<lambda>j. sp_outcome (env j) = Uploaded) [0 ..< length (uploadQueue st)]))
            (length (filter (\<lambda>j. sp_outcome (env j) \<noteq> Uploaded) [0 ..< length (uploadQueue st)])))
   \<and> files (stor_settled cfg r pu g) =
       (case settle_result cfg r pu g of
          Inr x \<Rightarrow> files g - {pu_filePath pu}
        | Inl err \<Rightarrow> files g)"
proof (intro conjI impI)
  show "staged (fst (process_item e item (st, ok, bad))) =
     (if sp_outcome e = Uploaded then staged st - {pt_localPath item} else staged st)"
    by (rule process_item_staged)
  show "snd (process_item e item (st, ok, bad)) =
       (if sp_outcome e = Uploaded \<and> pt_localPath item \<in> staged st
        then (ok + 1, bad) else (ok, bad + 1))"
    by (rule process_item_counts)
  show "staged (processUploadQueue d env st) = staged st - uploaded_paths env 0 (uploadQueue st)"
    by (rule processUploadQueue_staged)
  show "dispatched (fresh_journal st (processUploadQueue d env st)) = uploadQueue st"
    by (rule processUploadQueue_dispatched)
  show "files (stor_settled cfg r pu g) =
       (case settle_result cfg r pu g of
          Inr x \<Rightarrow> files g - {pu_filePath pu}
        | Inl err \<Rightarrow> files g)"
    by (rule stor_settled_files)
next
  assume "uploadQueue st \<noteq> []"
  then show "\<exists>new. fresh_journal st (processUploadQueue d env st) =
                  new @ [BatchComplete (successes new) (failures new)]
              \<and> successes new + failures new = length (uploadQueue st)
              \<and> successes new =
                  length (filter (relayed env (staged st) (uploadQueue st))
                            [0 ..< length (uploadQueue st)])
              \<and> failures new =
                  length (filter (\<lambda>j. \<not> relayed env (staged st) (uploadQueue st) j)
                            [0 ..< length (uploadQueue st)])"
    by (rule processUploadQueue_report)
next
  assume "uploadQueue st \<noteq> [] \<and> distinct (map pt_localPath (uploadQueue st))
        \<and> pt_localPath ` set (uploadQueue st) \<subseteq> staged st"
  then show "last (journal (processUploadQueue d env st)) =
          BatchComplete
            (length (filter (\<lambda>j. sp_outcome (env j) = Uploaded) [0 ..< length (uploadQueue st)]))
            (length (filter (\<lambda>j. sp_outcome (env j) \<noteq> Uploaded) [0 ..< length (uploadQueue st)]))"
    by (simp add: processUploadQueue_report_outcomes)
qed

theorem failed_upload_keeps_local_file_witness:
  "sp_outcome (middle_fails 1) = UploadError ''timeout''
   \<and> staged (fst (process_item (middle_fails 1) (transfer 1 ''b.pdf'') (three_staged, 0, 0)))
       = staged three_staged
   \<and> snd (process_item (middle_fails 1) (transfer 1 ''b.pdf'') (three_staged, 0, 0)) = (0, 1)
   \<and> snd (process_item (middle_fails 0) (transfer 0 ''a.pdf'') (three_staged, 0, 0)) = (1, 0)
   \<and> uploadQueue three_staged \<noteq> []
   \<and> distinct (map pt_localPath (uploadQueue three_staged))
   \<and> pt_localPath ` set (uploadQueue three_staged) \<subseteq> staged three_staged
   \<and> staged (processUploadQueue 3000 middle_fails three_staged) = {''scans/b.pdf''}
   \<and> dispatched (fresh_journal three_staged (processUploadQueue 3000 middle_fails three_staged))
       = [transfer 0 ''a.pdf'', transfer 1 ''b.pdf'', transfer 2 ''c.pdf'']
   \<and> length (filter (\<lambda>j. sp_outcome (middle_fails j) = Uploaded)
               [0 ..< length (uploadQueue three_staged)]) = 2
   \<and> length (filter (\<lambda>j. sp_outcome (middle_fails j) \<noteq> Uploaded)
               [0 ..< length (uploadQueue three_staged)]) = 1
   \<and> last (journal (processUploadQueue 3000 middle_fails three_staged)) = BatchComplete 2 1
   \<and> fresh_journal three_staged (processUploadQueue 3000 middle_fails three_staged) =
       [Dispatch (transfer 0 ''a.pdf''), Deleted ''scans/a.pdf'', Succeeded (transfer 0 ''a.pdf''),
        Wait 3000,
        Dispatch (transfer 1 ''b.pdf''), Failed (transfer 1 ''b.pdf''), Wait 3000,
        Dispatch (transfer 2 ''c.pdf''), Deleted ''scans/c.pdf'', Succeeded (transfer 2 ''c.pdf''),
        BatchComplete 2 1]
   \<and> settle_result (scenario 2) remote_down the_upload (run (scenario 2) one_upload)
       = Inl ''timeout''
   \<and> files (stor_settled (scenario 2) remote_down the_upload (run (scenario 2) one_upload))
       = {''scans/a.pdf''}
   \<and> files (stor_settled (scenario 2) remote_ok the_upload (run (scenario 2) one_upload)) = {}"
proof -
  let ?s = "run (scenario 2) one_upload"
  have ok: "settle_result (scenario 2) remote_ok the_upload ?s = Inr ''/Shared/alice/a.pdf''"
    by (simp add: handler_defs the_upload_def)
  have down: "settle_result (scenario 2) remote_down the_upload ?s = Inl ''timeout''"
    by (simp add: handler_defs the_upload_def)
  have f: "files ?s = {''scans/a.pdf''}" "pu_filePath the_upload = ''scans/a.pdf''"
    by (simp_all add: handler_defs the_upload_def)
  have o: "sp_outcome (middle_fails 1) = UploadError ''timeout''"
    "sp_outcome (middle_fails 0) = Uploaded"
    by (simp_all add: middle_fails_def quiet_def)
  have q: "uploadQueue three_staged =
             [transfer 0 ''a.pdf'', transfer 1 ''b.pdf'', transfer 2 ''c.pdf'']"
    "staged three_staged = {''scans/a.pdf'', ''scans/b.pdf'', ''scans/c.pdf''}"
    by (simp_all add: three_staged_def)
  have h: "distinct (map pt_localPath (uploadQueue three_staged))"
    "pt_localPath ` set (uploadQueue three_staged) \<subseteq> staged three_staged"
    by (simp_all add: q transfer_def)
  have u: "uploaded_paths middle_fails 0 (uploadQueue three_staged) = {''scans/a.pdf'', ''scans/c.pdf''}"
    by (simp add: batch_defs uploaded_paths_def upt_rec)
  have c: "length (filter (\<lambda>j. sp_outcome (middle_fails j) = Uploaded)
               [0 ..< length (uploadQueue three_staged)]) = 2"
    "length (filter (\<lambda>j. sp_outcome (middle_fails j) \<noteq> Uploaded)
               [0 ..< length (uploadQueue three_staged)]) = 1"
    by (simp_all add: q middle_fails_def quiet_def upt_rec)
  have j: "fresh_journal three_staged (processUploadQueue 3000 middle_fails three_staged) =
       [Dispatch (transfer 0 ''a.pdf''), Deleted ''scans/a.pdf'', Succeeded (transfer 0 ''a.pdf''),
        Wait 3000,
        Dispatch (transfer 1 ''b.pdf''), Failed (transfer 1 ''b.pdf''), Wait 3000,
        Dispatch (transfer 2 ''c.pdf''), Deleted ''scans/c.pdf'', Succeeded (transfer 2 ''c.pdf''),
        BatchComplete 2 1]"
    by (simp add: batch_defs)
  have t: "transfer 1 ''b.pdf'' = \<lparr>pt_ref = 1, pt_localPath = ''scans/b.pdf'',
      pt_egnytePath = ''/Shared/alice/b.pdf'', pt_fileName = ''b.pdf'', pt_username = ''alice''\<rparr>"
    "pt_localPath (transfer 0 ''a.pdf'') = ''scans/a.pdf''"
    by (simp_all add: transfer_def)
  from failed_upload_keeps_local_file
         [where e = "middle_fails 1" and item = "transfer 1 ''b.pdf''" and st = three_staged
            and ok = 0 and bad = 0 and d = 3000 and env = middle_fails
            and cfg = "scenario 2" and r = remote_down and pu = the_upload and g = ?s]
       failed_upload_keeps_local_file
         [where e = "middle_fails 0" and item = "transfer 0 ''a.pdf''" and st = three_staged
            and ok = 0 and bad = 0
            and cfg = "scenario 2" and r = remote_ok and pu = the_upload and g = ?s]
  show ?thesis
    using ok down f o u c h j by (auto simp: q t)
qed

subsection \<open>Pacing\<close>

text \<open>
  Claim C5 on the backup gateway, at the queue \<open>a.pdf\<close>, \<open>b.pdf\<close> when the upload of
  \<open>a.pdf\<close> fails and that of \<open>b.pdf\<close> succeeds: \<open>b.pdf\<close> is dispatched with no wait after
  \<open>a.pdf\<close>, and the drain waits after \<open>b.pdf\<close>, its last item, because \<open>a.pdf\<close> is still
  queued. The claim asks for one wait between the two dispatches and none after the
  last.
\<close>

theorem backup_pacing_skipped_after_failure:
  "pacing (fresh_journal two_staged (processUploads 3000 first_fails two_staged))
     = [Dispatch (transfer 0 ''a.pdf''), Dispatch (transfer 1 ''b.pdf''), Wait 3000]
   \<and> paced 3000 (uploadQueue two_staged)
     = [Dispatch (transfer 0 ''a.pdf''), Wait 3000, Dispatch (transfer 1 ''b.pdf'')]"
  by (simp add: backup_defs)

text \<open>
  The loop of the timer-driven gateway has its pacing delay after the \<open>try\<close>: whatever
  the outcomes, the dispatches and waits of a drain are the dispatches of the snapshot
  with one wait of the configured delay between each two of them, and none after the
  last.
\<close>

theorem drain_pacing_between_items:
  "pacing (fresh_journal st (processUploadQueue d env st)) = paced d (uploadQueue st)"
  by (rule processUploadQueue_pacing)

theorem drain_pacing_between_items_witness:
  "pacing (fresh_journal three_staged (processUploadQueue 3000 middle_fails three_staged))
     = [Dispatch (transfer 0 ''a.pdf''), Wait 3000, Dispatch (transfer 1 ''b.pdf''), Wait 3000,
        Dispatch (transfer 2 ''c.pdf'')]
   \<and> failures (fresh_journal three_staged (processUploadQueue 3000 middle_fails three_staged)) = 1"
proof -
  have "failures (fresh_journal three_staged (processUploadQueue 3000 middle_fails three_staged)) = 1"
    by (simp add: drain_defs middle_fails_def three_staged_def)
  then show ?thesis
    using drain_pacing_between_items[of three_staged 3000 middle_fails]
    by (simp add: three_staged_def)
qed

subsection \<open>Failed items and the queue\<close>

text \<open>
  Claim C9, as stated, fails on the backup gateway: \<open>a.pdf\<close>, whose upload failed, is
  still in the queue after the drain, and the next drain dispatches it again.
\<close>

theorem backup_failed_item_stays_queued:
  "uploadQueue (processUploads 3000 first_fails two_staged) = [transfer 0 ''a.pdf'']
   \<and> dispatched (fresh_journal (processUploads 3000 first_fails two_staged)
        (processUploads 3000 first_fails (processUploads 3000 first_fails two_staged)))
      = [transfer 0 ''a.pdf'']"
  by (simp add: backup_defs)

text \<open>
  Claim C9, amended. In the timer-driven gateway the queue after a drain holds exactly
  what arrived during it: a transfer of the snapshot is not in the queue afterwards,
  whether its attempt succeeded or failed, and unless it is pushed again the next drain
  does not dispatch it. In the backup gateway a transfer of the snapshot whose upload
  fails (at every pass that works on it) is still in the queue when the drain ends,
  and the next drain dispatches it again.
\<close>

theorem drain_removes_failed_items:
  "uploadQueue (processUploadQueue d env st) = arrivals env (length (uploadQueue st))
   \<and> (\<forall>x \<in> set (uploadQueue st).
         x \<notin> set (arrivals env (length (uploadQueue st))) \<longrightarrow>
           x \<notin> set (uploadQueue (processUploadQueue d env st))
         \<and> (x \<notin> set later \<longrightarrow>
              x \<notin> set (dispatched (fresh_journal (push later (processUploadQueue d env st))
                 (processUploadQueue d env' (push later (processUploadQueue d env st)))))))
   \<and> (\<forall>x \<in> set (uploadQueue st).
         (\<forall>j < length (uploadQueue st). uploadQueue st ! j = x \<longrightarrow> sp_outcome (env j) \<noteq> Uploaded)
         \<longrightarrow> x \<in> set (uploadQueue (processUploads d env st))
           \<and> x \<in> set (dispatched (fresh_journal (push later (processUploads d env st))
                 (processUploads d env' (push later (processUploads d env st))))))"
  by (simp add: processUploadQueue_dispatched processUploadQueue_queue processUploads_dispatched
      processUploads_keeps_failed)

theorem drain_removes_failed_items_witness:
  "transfer 0 ''a.pdf'' \<in> set (uploadQueue two_staged)
   \<and> sp_outcome (first_fails 0) = UploadError ''timeout''
   \<and> uploadQueue (processUploadQueue 3000 first_fails two_staged) = []
   \<and> transfer 0 ''a.pdf'' \<notin> set (dispatched
        (fresh_journal (push [transfer 3 ''d.pdf''] (processUploadQueue 3000 first_fails two_staged))
           (processUploadQueue 3000 (\<lambda>i. quiet Uploaded)
              (push [transfer 3 ''d.pdf''] (processUploadQueue 3000 first_fails two_staged)))))
   \<and> transfer 0 ''a.pdf'' \<in> set (uploadQueue (processUploads 3000 first_fails two_staged))
   \<and> transfer 0 ''a.pdf'' \<in> set (dispatched
        (fresh_journal (push [transfer 3 ''d.pdf''] (processUploads 3000 first_fails two_staged))
           (processUploads 3000 (\<lambda>i. quiet Uploaded)
              (push [transfer 3 ''d.pdf''] (processUploads 3000 first_fails two_staged)))))"
proof -
  let ?a = "transfer 0 ''a.pdf''"
  have a: "arrivals first_fails (length (uploadQueue two_staged)) = []"
    by (simp add: drain_defs arrivals_def arrivals_from_def upt_rec)
  have q: "uploadQueue two_staged = [?a, transfer 1 ''b.pdf'']"
    by (simp add: two_staged_def)
  have x: "?a \<in> set (uploadQueue two_staged)"
    by (simp add: q)
  have o: "sp_outcome (first_fails 0) = UploadError ''timeout''"
    by (simp add: first_fails_def quiet_def)
  have n: "?a \<notin> set [transfer 3 ''d.pdf'']" "?a \<notin> set (arrivals first_fails (length (uploadQueue two_staged)))"
    by (simp_all add: a transfer_def)
  have h: "\<forall>j < length (uploadQueue two_staged).
             uploadQueue two_staged ! j = ?a \<longrightarrow> sp_outcome (first_fails j) \<noteq> Uploaded"
    by (auto simp: q o transfer_def less_Suc_eq)
  note T = drain_removes_failed_items[where st = two_staged and d = 3000 and env = first_fails
      and later = "[transfer 3 ''d.pdf'']" and env' = "\<lambda>i. quiet Uploaded"]
  from T have emptied: "uploadQueue (processUploadQueue 3000 first_fails two_staged) = []"
    by (simp add: a)
  from T x n have timer: "?a \<notin> set (dispatched
        (fresh_journal (push [transfer 3 ''d.pdf''] (processUploadQueue 3000 first_fails two_staged))
           (processUploadQueue 3000 (\<lambda>i. quiet Uploaded)
              (push [transfer 3 ''d.pdf''] (processUploadQueue 3000 first_fails two_staged)))))"
    by blast
  from T x h have backup: "?a \<in> set (uploadQueue (processUploads 3000 first_fails two_staged))
     \<and> ?a \<in> set (dispatched
        (fresh_journal (push [transfer 3 ''d.pdf''] (processUploads 3000 first_fails two_staged))
           (processUploads 3000 (\<lambda>i. quiet Uploaded)
              (push [transfer 3 ''d.pdf''] (processUploads 3000 first_fails two_staged)))))"
    by blast
  show ?thesis using x o emptied timer backup by simp
qed

end
